theory Spec2Isabelle
  imports Complex_Main
begin

section \<open>Memory model\<close>

text \<open>
  The class of \<^verbatim>\<open>permutohedral.h\<close> works on heap arrays through raw pointers.  An array
  is a list, a pointer that may be \<^verbatim>\<open>NULL\<close> is an optional list, and every access the
  C++ leaves undefined is an error value of the model: a read or write outside the
  allocation, a dereferenced null pointer, an array allocated with a negative length.

  Numbers: the filter (\<^verbatim>\<open>compute\<close>) is read over the reals, and so is the first reading
  of \<^verbatim>\<open>init\<close>: \<^verbatim>\<open>float\<close> and \<^verbatim>\<open>double\<close> are the reals (exact arithmetic, no rounding,
  no overflow, no NaN), \<^verbatim>\<open>int\<close> and \<^verbatim>\<open>short\<close> are the unbounded integers.  A second
  reading of \<^verbatim>\<open>init\<close>, in binary32, follows the first.
\<close>

datatype error = NullPointer | OutOfBounds | BadArrayLength

definition bnd :: "error + 'a \<Rightarrow> ('a \<Rightarrow> error + 'b) \<Rightarrow> error + 'b" where
  "bnd m f = (case m of Inl e \<Rightarrow> Inl e | Inr x \<Rightarrow> f x)"

definition rd :: "'a list \<Rightarrow> int \<Rightarrow> error + 'a" where
  "rd xs i = (if 0 \<le> i \<and> i < int (length xs) then Inr (xs ! nat i) else Inl OutOfBounds)"

definition wr :: "'a list \<Rightarrow> int \<Rightarrow> 'a \<Rightarrow> error + 'a list" where
  "wr xs i v = (if 0 \<le> i \<and> i < int (length xs) then Inr (xs[nat i := v]) else Inl OutOfBounds)"

definition deref :: "'a list option \<Rightarrow> error + 'a list" where
  "deref p = (case p of None \<Rightarrow> Inl NullPointer | Some xs \<Rightarrow> Inr xs)"

definition rdp :: "'a list option \<Rightarrow> int \<Rightarrow> error + 'a" where
  "rdp p i = bnd (deref p) (\<lambda>xs. rd xs i)"

text \<open>\<^verbatim>\<open>new T[n]\<close> followed by the loop that fills every slot with \<open>v\<close>.\<close>

definition new_array :: "int \<Rightarrow> 'a \<Rightarrow> error + 'a list" where
  "new_array n v = (if n < 0 then Inl BadArrayLength else Inr (replicate (nat n) v))"

text \<open>\<^verbatim>\<open>memcpy(dst, src, n * sizeof(T))\<close> into a fresh array of \<open>n\<close> elements.\<close>

definition memcpy_new :: "'a list \<Rightarrow> int \<Rightarrow> error + 'a list" where
  "memcpy_new src n =
     (if n < 0 then Inl BadArrayLength
      else if int (length src) < n then Inl OutOfBounds
      else Inr (take (nat n) src))"

text \<open>
  A counted loop \<^verbatim>\<open>for (i = a; i <= b; i++) body\<close> runs the body over the index list
  \<open>[a..b]\<close>, threading the state and stopping at the first error.
\<close>

fun for_loop :: "int list \<Rightarrow> (int \<Rightarrow> 's \<Rightarrow> error + 's) \<Rightarrow> 's \<Rightarrow> error + 's" where
  "for_loop [] body s = Inr s"
| "for_loop (i # is) body s = (case body i s of Inl e \<Rightarrow> Inl e | Inr s' \<Rightarrow> for_loop is body s')"

section \<open>The lattice object\<close>

datatype Neighbors = Neighbors (n1: int) (n2: int)

record Permutohedral =
  offset_p :: "int list option"
  barycentric_p :: "real list option"
  blur_neighbors_p :: "Neighbors list option"
  N_p :: int
  M_p :: int
  d_p :: int

text \<open>The default constructor: three null pointers, \<open>N = M = d = 0\<close>.\<close>

definition Permutohedral_default :: Permutohedral where
  "Permutohedral_default =
     \<lparr>offset_p = None, barycentric_p = None, blur_neighbors_p = None, N_p = 0, M_p = 0, d_p = 0\<rparr>"

text \<open>
  One table of the copy: \<^verbatim>\<open>if (o.t) { t = new T[n]; memcpy(t, o.t, n*sizeof(T)); }\<close>,
  the pointer staying null otherwise.
\<close>

definition copy_table :: "'a list option \<Rightarrow> int \<Rightarrow> error + 'a list option" where
  "copy_table t n =
     (case t of None \<Rightarrow> Inr None | Some src \<Rightarrow> bnd (memcpy_new src n) (\<lambda>dst. Inr (Some dst)))"

text \<open>The copy constructor.  All three tables are copied with \<open>(d+1)*N\<close> elements.\<close>

definition Permutohedral_copy :: "Permutohedral \<Rightarrow> error + Permutohedral" where
  "Permutohedral_copy o' =
     (let N = N_p o'; M = M_p o'; d = d_p o' in
      bnd (copy_table (barycentric_p o') ((d + 1) * N)) (\<lambda>barycentric.
      bnd (copy_table (offset_p o') ((d + 1) * N)) (\<lambda>offset.
      bnd (copy_table (blur_neighbors_p o') ((d + 1) * N)) (\<lambda>blur_neighbors.
      Inr \<lparr>offset_p = offset, barycentric_p = barycentric, blur_neighbors_p = blur_neighbors,
           N_p = N, M_p = M, d_p = d\<rparr>))))"

text \<open>
  Copy assignment.  Objects are given with their addresses, so that the self-assignment
  test \<^verbatim>\<open>&o == this\<close> is a comparison of the two addresses.  The old tables are
  released, which leaves no trace in the model, and the rest is the copy constructor's body.
\<close>

definition Permutohedral_assign ::
  "nat \<times> Permutohedral \<Rightarrow> nat \<times> Permutohedral \<Rightarrow> error + Permutohedral" where
  "Permutohedral_assign this o' =
     (if fst o' = fst this then Inr (snd this)
      else
        let N = N_p (snd o'); M = M_p (snd o'); d = d_p (snd o') in
        bnd (copy_table (barycentric_p (snd o')) ((d + 1) * N)) (\<lambda>barycentric.
        bnd (copy_table (offset_p (snd o')) ((d + 1) * N)) (\<lambda>offset.
        bnd (copy_table (blur_neighbors_p (snd o')) ((d + 1) * N)) (\<lambda>blur_neighbors.
        Inr \<lparr>offset_p = offset, barycentric_p = barycentric, blur_neighbors_p = blur_neighbors,
             N_p = N, M_p = M, d_p = d\<rparr>))))"

section \<open>The filter: splat, blur, slice\<close>

text \<open>
  Splatting input point \<open>i\<close> onto its corner \<open>j\<close>: the loop over the channels \<open>k\<close>, with
  \<^verbatim>\<open>values[o*value_size+k] += w * in[i*value_size+k]\<close>.
\<close>

definition splat_corner ::
  "Permutohedral \<Rightarrow> real list \<Rightarrow> int \<Rightarrow> int \<Rightarrow> int \<Rightarrow> int \<Rightarrow> real list \<Rightarrow> error + real list" where
  "splat_corner p inp value_size in_offset i j values =
     bnd (rdp (offset_p p) ((in_offset + i) * (d_p p + 1) + j)) (\<lambda>ov.
     bnd (rdp (barycentric_p p) ((in_offset + i) * (d_p p + 1) + j)) (\<lambda>w.
       for_loop [0..value_size - 1] (\<lambda>k values.
         bnd (rd inp (i * value_size + k)) (\<lambda>x.
         bnd (rd values ((ov + 1) * value_size + k)) (\<lambda>v.
         wr values ((ov + 1) * value_size + k) (v + w * x)))) values))"

text \<open>Splatting one input point \<open>i\<close>: the loop over its \<open>d+1\<close> corners.\<close>

definition splat_point ::
  "Permutohedral \<Rightarrow> real list \<Rightarrow> int \<Rightarrow> int \<Rightarrow> int \<Rightarrow> real list \<Rightarrow> error + real list" where
  "splat_point p inp value_size in_offset i values =
     for_loop [0..d_p p] (splat_corner p inp value_size in_offset i) values"

definition splat ::
  "Permutohedral \<Rightarrow> real list \<Rightarrow> int \<Rightarrow> int \<Rightarrow> int \<Rightarrow> real list \<Rightarrow> error + real list" where
  "splat p inp value_size in_offset in_size values =
     for_loop [0..in_size - 1] (splat_point p inp value_size in_offset) values"

text \<open>
  Blurring vertex \<open>i\<close> along axis \<open>j\<close>: reads the buffer \<open>values\<close>, writes slot \<open>i+1\<close> of
  \<open>new_values\<close>.
\<close>

definition blur_vertex ::
  "Permutohedral \<Rightarrow> int \<Rightarrow> int \<Rightarrow> real list \<Rightarrow> int \<Rightarrow> real list \<Rightarrow> error + real list" where
  "blur_vertex p value_size j values i new_values =
     bnd (rdp (blur_neighbors_p p) (j * M_p p + i)) (\<lambda>nb.
       for_loop [0..value_size - 1] (\<lambda>k new_values.
         bnd (rd values ((i + 1) * value_size + k)) (\<lambda>old_val.
         bnd (rd values ((n1 nb + 1) * value_size + k)) (\<lambda>n1_val.
         bnd (rd values ((n2 nb + 1) * value_size + k)) (\<lambda>n2_val.
         wr new_values ((i + 1) * value_size + k) (old_val + 0.5 * (n1_val + n2_val))))))
       new_values)"

text \<open>One axis pass over all vertices, then the swap of the two buffers.\<close>

definition blur_axis ::
  "Permutohedral \<Rightarrow> int \<Rightarrow> int \<Rightarrow> real list \<times> real list \<Rightarrow> error + real list \<times> real list" where
  "blur_axis p value_size j bufs =
     (case bufs of (values, new_values) \<Rightarrow>
        bnd (for_loop [0..M_p p - 1] (blur_vertex p value_size j values) new_values)
          (\<lambda>new_values. Inr (new_values, values)))"

definition blur ::
  "Permutohedral \<Rightarrow> int \<Rightarrow> real list \<times> real list \<Rightarrow> error + real list \<times> real list" where
  "blur p value_size bufs = for_loop [0..d_p p] (blur_axis p value_size) bufs"

text \<open>The scaling constant \<^verbatim>\<open>1.0f / (1.f + powf(2.f, -(float)d_))\<close>.\<close>

definition alpha_of :: "int \<Rightarrow> real" where
  "alpha_of d = 1 / (1 + power_int 2 (- d))"

text \<open>
  Gathering corner \<open>j\<close> into output point \<open>i\<close>: the loop over the channels \<open>k\<close>, with
  \<^verbatim>\<open>out[i*value_size+k] += w * values[o*value_size+k] * alpha\<close>.
\<close>

definition slice_corner ::
  "Permutohedral \<Rightarrow> int \<Rightarrow> int \<Rightarrow> real \<Rightarrow> real list \<Rightarrow> int \<Rightarrow> int \<Rightarrow> real list \<Rightarrow> error + real list" where
  "slice_corner p value_size out_offset alpha values i j out =
     bnd (rdp (offset_p p) ((out_offset + i) * (d_p p + 1) + j)) (\<lambda>ov.
     bnd (rdp (barycentric_p p) ((out_offset + i) * (d_p p + 1) + j)) (\<lambda>w.
       for_loop [0..value_size - 1] (\<lambda>k out.
         bnd (rd values ((ov + 1) * value_size + k)) (\<lambda>v.
         bnd (rd out (i * value_size + k)) (\<lambda>cur.
         wr out (i * value_size + k) (cur + w * v * alpha)))) out))"

text \<open>Slicing output point \<open>i\<close>: zero its slot of \<open>out\<close>, then gather from its corners.\<close>

definition slice_point ::
  "Permutohedral \<Rightarrow> int \<Rightarrow> int \<Rightarrow> real \<Rightarrow> real list \<Rightarrow> int \<Rightarrow> real list \<Rightarrow> error + real list" where
  "slice_point p value_size out_offset alpha values i out =
     bnd (for_loop [0..value_size - 1] (\<lambda>k out. wr out (i * value_size + k) 0) out)
       (for_loop [0..d_p p] (slice_corner p value_size out_offset alpha values i))"

definition slice ::
  "Permutohedral \<Rightarrow> int \<Rightarrow> int \<Rightarrow> int \<Rightarrow> real \<Rightarrow> real list \<Rightarrow> real list \<Rightarrow> error + real list" where
  "slice p value_size out_offset out_size alpha values out =
     for_loop [0..out_size - 1] (slice_point p value_size out_offset alpha values) out"

text \<open>The defaults of the two range sizes: \<open>-1\<close> stands for "up to the last point".\<close>

definition range_size :: "Permutohedral \<Rightarrow> int \<Rightarrow> int \<Rightarrow> int" where
  "range_size p off sz = (if sz = - 1 then N_p p - off else sz)"

text \<open>
  \<^verbatim>\<open>compute(out, in, value_size, in_offset, out_offset, in_size, out_size)\<close>.  The
  caller's output array \<open>out\<close> is passed in and returned updated.
\<close>

definition compute ::
  "Permutohedral \<Rightarrow> real list \<Rightarrow> real list \<Rightarrow> int \<Rightarrow> int \<Rightarrow> int \<Rightarrow> int \<Rightarrow> int
     \<Rightarrow> error + real list" where
  "compute p out inp value_size in_offset out_offset in_size out_size =
     bnd (new_array ((M_p p + 2) * value_size) 0) (\<lambda>values.
     bnd (new_array ((M_p p + 2) * value_size) 0) (\<lambda>new_values.
     bnd (splat p inp value_size in_offset (range_size p in_offset in_size) values) (\<lambda>values.
     bnd (blur p value_size (values, new_values)) (\<lambda>bufs.
       slice p value_size out_offset (range_size p out_offset out_size) (alpha_of (d_p p))
         (fst bufs) out))))"

section \<open>The vertex store\<close>

text \<open>
  Modelled from the spec: the class \<^verbatim>\<open>HashTable\<close> of \<^verbatim>\<open>hashtable.h\<close>, which the
  lattice includes and which is not among the sources.  The spec gives its contract:
  \<^verbatim>\<open>find(key, insertIfAbsent)\<close> returns the index of a key seen before; otherwise, with
  \<^verbatim>\<open>insertIfAbsent\<close>, it stores the key under the next index (0-based, dense) and,
  without it, returns \<open>-1\<close> and stores nothing; \<^verbatim>\<open>size()\<close> is the number of stored
  keys; \<^verbatim>\<open>getKey(index)\<close> is the key stored under an allocated index.  A key is a
  sequence of \<open>key_size\<close> integers.  The store is the list of its keys in index order.
\<close>

record HashTable =
  key_size :: int
  keys :: "int list list"

definition HashTable_new :: "int \<Rightarrow> int \<Rightarrow> HashTable" where
  "HashTable_new ksize n_elements = \<lparr>key_size = ksize, keys = []\<rparr>"

fun key_index :: "int list list \<Rightarrow> int list \<Rightarrow> int \<Rightarrow> int" where
  "key_index [] k i = - 1"
| "key_index (x # xs) k i = (if x = k then i else key_index xs k (i + 1))"

definition HashTable_find :: "HashTable \<Rightarrow> int list \<Rightarrow> bool \<Rightarrow> HashTable \<times> int" where
  "HashTable_find h key create =
     (let k = take (nat (key_size h)) key; i = key_index (keys h) k 0 in
      if 0 \<le> i then (h, i)
      else if create then (h\<lparr>keys := keys h @ [k]\<rparr>, int (length (keys h)))
      else (h, - 1))"

definition HashTable_size :: "HashTable \<Rightarrow> int" where
  "HashTable_size h = int (length (keys h))"

definition HashTable_getKey :: "HashTable \<Rightarrow> int \<Rightarrow> error + int list" where
  "HashTable_getKey h i = rd (keys h) i"

section \<open>Building the lattice\<close>

text \<open>
  The canonical simplex: row \<open>i\<close> of the \<open>(d+1) \<times> (d+1)\<close> table holds \<open>i\<close> in its first
  \<open>d-i+1\<close> columns and \<open>i-(d+1)\<close> in the others.
\<close>

definition canonical_simplex :: "int \<Rightarrow> error + int list" where
  "canonical_simplex d =
     bnd (new_array ((d + 1) * (d + 1)) 0) (\<lambda>canonical.
       for_loop [0..d] (\<lambda>i canonical.
         bnd (for_loop [0..d - i] (\<lambda>j canonical. wr canonical (i * (d + 1) + j) i) canonical)
           (\<lambda>canonical.
         for_loop [d - i + 1..d] (\<lambda>j canonical. wr canonical (i * (d + 1) + j) (i - (d + 1)))
           canonical)) canonical)"

text \<open>
  The diagonal of the elevation matrix:
  \<^verbatim>\<open>scale_factor[i] = 1.f / sqrtf((i+2.f)*(i+1.f)) * inv_std_dev\<close> with
  \<^verbatim>\<open>inv_std_dev = sqrtf(2.f / 3.f)*(d_+1)\<close>.
\<close>

definition scale_factors :: "int \<Rightarrow> error + real list" where
  "scale_factors d =
     (let inv_std_dev = sqrt (2 / 3) * real_of_int (d + 1) in
      bnd (new_array d 0) (\<lambda>scale_factor.
        for_loop [0..d - 1] (\<lambda>i scale_factor.
          wr scale_factor i
            (1 / sqrt ((real_of_int i + 2) * (real_of_int i + 1)) * inv_std_dev)) scale_factor))"

text \<open>
  Elevation of the feature vector that starts at index \<open>fbase\<close> of the feature array: the
  loop runs \<open>j\<close> from \<open>d\<close> down to 1 with the running sum \<open>sm\<close>, then stores
  \<open>elevated[0] = sm\<close>.
\<close>

definition elevate :: "real list \<Rightarrow> int \<Rightarrow> real list \<Rightarrow> int \<Rightarrow> error + real list" where
  "elevate feature fbase scale_factor d =
     bnd (new_array (d + 1) 0) (\<lambda>elevated.
     bnd (for_loop (rev [1..d]) (\<lambda>j st.
            case st of (elevated, sm) \<Rightarrow>
              bnd (rd feature (fbase + (j - 1))) (\<lambda>fj.
              bnd (rd scale_factor (j - 1)) (\<lambda>sc.
                let cf = fj * sc in
                bnd (wr elevated j (sm - real_of_int j * cf)) (\<lambda>elevated.
                Inr (elevated, sm + cf))))) (elevated, 0))
       (\<lambda>st. case st of (elevated, sm) \<Rightarrow> wr elevated 0 sm))"

text \<open>\<^verbatim>\<open>round\<close> of the C library: to the nearest integer, halves away from zero.\<close>

definition c_round :: "real \<Rightarrow> int" where
  "c_round x = (if 0 \<le> x then \<lfloor>x + 1 / 2\<rfloor> else \<lceil>x - 1 / 2\<rceil>)"

text \<open>The conversion of a \<^verbatim>\<open>float\<close> to an integer type: truncation toward zero.\<close>

definition c_trunc :: "real \<Rightarrow> int" where
  "c_trunc x = (if 0 \<le> x then \<lfloor>x\<rfloor> else \<lceil>x\<rceil>)"

text \<open>
  The closest 0-coloured lattice point: \<open>rem0[i]\<close> is the multiple of \<open>d+1\<close> nearest to
  \<open>elevated[i]\<close>, and \<open>sum_rd\<close> (the \<^verbatim>\<open>sum\<close> of the C++) adds up the rounded quotients.
\<close>

definition round_elevated :: "real list \<Rightarrow> int \<Rightarrow> error + real list \<times> int" where
  "round_elevated elevated d =
     (let down_factor = 1 / real_of_int (d + 1); up_factor = real_of_int (d + 1) in
      bnd (new_array (d + 1) 0) (\<lambda>rem0.
        for_loop [0..d] (\<lambda>i st.
          case st of (rem0, sum_rd) \<Rightarrow>
            bnd (rd elevated i) (\<lambda>e.
              let rd' = c_round (down_factor * e) in
              bnd (wr rem0 i (real_of_int rd' * up_factor)) (\<lambda>rem0.
              Inr (rem0, sum_rd + rd')))) (rem0, 0)))"

text \<open>\<^verbatim>\<open>a[i]++\<close> and \<^verbatim>\<open>a[i] += x\<close> on an array.\<close>

definition add_at :: "'a::plus list \<Rightarrow> int \<Rightarrow> 'a \<Rightarrow> error + 'a list" where
  "add_at xs i x = bnd (rd xs i) (\<lambda>v. wr xs i (v + x))"

text \<open>
  The rank of each coordinate among the residuals \<open>elevated[i] - rem0[i]\<close>: every pair
  \<open>i < j\<close> is compared once and the smaller side's rank goes up.
\<close>

definition rank_residuals :: "real list \<Rightarrow> real list \<Rightarrow> int \<Rightarrow> error + int list" where
  "rank_residuals elevated rem0 d =
     bnd (new_array (d + 1) 0) (\<lambda>rank.
       for_loop [0..d - 1] (\<lambda>i rank.
         bnd (rd elevated i) (\<lambda>ei.
         bnd (rd rem0 i) (\<lambda>ri.
           let di = ei - ri in
           for_loop [i + 1..d] (\<lambda>j rank.
             bnd (rd elevated j) (\<lambda>ej.
             bnd (rd rem0 j) (\<lambda>rj.
               if di < ej - rj then add_at rank i 1 else add_at rank j 1))) rank))) rank)"

text \<open>
  Bringing the point back to the plane: every rank is shifted by \<open>sum\<close> and wrapped once
  by \<open>d+1\<close>, with the matching change of \<open>rem0\<close>.
\<close>

definition correct_rank ::
  "int list \<Rightarrow> real list \<Rightarrow> int \<Rightarrow> int \<Rightarrow> error + int list \<times> real list" where
  "correct_rank rank rem0 sum_rd d =
     for_loop [0..d] (\<lambda>i st.
       case st of (rank, rem0) \<Rightarrow>
         bnd (add_at rank i sum_rd) (\<lambda>rank.
         bnd (rd rank i) (\<lambda>r.
           if r < 0 then
             bnd (add_at rank i (d + 1)) (\<lambda>rank.
             bnd (add_at rem0 i (real_of_int (d + 1))) (\<lambda>rem0. Inr (rank, rem0)))
           else if r > d then
             bnd (add_at rank i (- (d + 1))) (\<lambda>rank.
             bnd (add_at rem0 i (- real_of_int (d + 1))) (\<lambda>rem0. Inr (rank, rem0)))
           else Inr (rank, rem0)))) (rank, rem0)"

text \<open>
  The barycentric coordinates: \<open>d+2\<close> slots, two of them touched per coordinate at the
  indices \<open>d - rank[i]\<close> and \<open>d - rank[i] + 1\<close>, and slot \<open>d+1\<close> wrapped into slot 0.
\<close>

definition barycentric_coords ::
  "real list \<Rightarrow> real list \<Rightarrow> int list \<Rightarrow> int \<Rightarrow> error + real list" where
  "barycentric_coords elevated rem0 rank d =
     (let down_factor = 1 / real_of_int (d + 1) in
      bnd (new_array (d + 2) 0) (\<lambda>barycentric.
      bnd (for_loop [0..d] (\<lambda>i barycentric.
             bnd (rd elevated i) (\<lambda>e.
             bnd (rd rem0 i) (\<lambda>r0.
               let v = (e - r0) * down_factor in
               bnd (rd rank i) (\<lambda>r.
               bnd (add_at barycentric (d - r) v) (\<lambda>barycentric.
               add_at barycentric (d - r + 1) (- v)))))) barycentric) (\<lambda>barycentric.
      bnd (rd barycentric (d + 1)) (\<lambda>wrap.
      add_at barycentric 0 (1 + wrap)))))"

text \<open>
  The key of corner \<open>remainder\<close>: \<open>key[i] = rem0[i] + canonical[remainder*(d+1) + rank[i]]\<close>
  for the first \<open>d\<close> coordinates.
\<close>

definition corner_key ::
  "real list \<Rightarrow> int list \<Rightarrow> int list \<Rightarrow> int \<Rightarrow> int \<Rightarrow> error + int list" where
  "corner_key rem0 rank canonical d remainder =
     bnd (new_array (d + 1) 0) (\<lambda>key.
       for_loop [0..d - 1] (\<lambda>i key.
         bnd (rd rem0 i) (\<lambda>r0.
         bnd (rd rank i) (\<lambda>r.
         bnd (rd canonical (remainder * (d + 1) + r)) (\<lambda>c.
         wr key i (c_trunc (r0 + real_of_int c)))))) key)"

text \<open>
  Storing corner \<open>remainder\<close> of point \<open>k\<close>: its key is looked up in the vertex store,
  inserted when new, and the vertex index and the barycentric weight go into slot
  \<open>k*(d+1)+remainder\<close> of the two corner tables.  The state is the vertex store and the
  two tables being filled.
\<close>

definition store_corner ::
  "real list \<Rightarrow> int list \<Rightarrow> int list \<Rightarrow> real list \<Rightarrow> int \<Rightarrow> int \<Rightarrow> int
     \<Rightarrow> HashTable \<times> int list \<times> real list \<Rightarrow> error + HashTable \<times> int list \<times> real list" where
  "store_corner rem0 rank canonical barycentric d k remainder st =
     (case st of (hash_table, offset, barycentric') \<Rightarrow>
        bnd (corner_key rem0 rank canonical d remainder) (\<lambda>key.
          case HashTable_find hash_table key True of (hash_table, idx) \<Rightarrow>
            bnd (wr offset (k * (d + 1) + remainder) idx) (\<lambda>offset.
            bnd (rd barycentric remainder) (\<lambda>b.
            bnd (wr barycentric' (k * (d + 1) + remainder) b) (\<lambda>barycentric'.
            Inr (hash_table, offset, barycentric'))))))"

text \<open>
  The body of the loop over the points.  The scratch arrays of \<^verbatim>\<open>init\<close> are written
  for every point before they are read, so the model makes them anew for each point.
\<close>

definition init_point ::
  "real list \<Rightarrow> int \<Rightarrow> int \<Rightarrow> real list \<Rightarrow> int list \<Rightarrow> int
     \<Rightarrow> HashTable \<times> int list \<times> real list \<Rightarrow> error + HashTable \<times> int list \<times> real list" where
  "init_point feature feature_size d scale_factor canonical k st =
     bnd (elevate feature (k * feature_size) scale_factor d) (\<lambda>elevated.
     bnd (round_elevated elevated d) (\<lambda>rs.
     bnd (rank_residuals elevated (fst rs) d) (\<lambda>rank.
     bnd (correct_rank rank (fst rs) (snd rs) d) (\<lambda>rr.
     bnd (barycentric_coords elevated (snd rr) (fst rr) d) (\<lambda>barycentric.
       for_loop [0..d] (store_corner (snd rr) (fst rr) canonical barycentric d k) st)))))"

text \<open>
  The two probe keys of vertex \<open>i\<close> along axis \<open>j\<close>: every coordinate moved by \<open>-1\<close> and
  \<open>+1\<close>, coordinate \<open>j\<close> set to \<open>key[j] + d\<close> and \<open>key[j] - d\<close>.  For \<open>j = d\<close> the C++
  assigns slot \<open>d\<close> of the probes from the \<^verbatim>\<open>short\<close> that follows the key in the
  store; a lookup reads the first \<open>d\<close> slots only, and the model leaves that assignment out.
\<close>

definition probe_key :: "int list \<Rightarrow> int \<Rightarrow> int \<Rightarrow> int \<Rightarrow> error + int list" where
  "probe_key key d j step =
     bnd (new_array (d + 1) 0) (\<lambda>n.
     bnd (for_loop [0..d - 1] (\<lambda>k n. bnd (rd key k) (\<lambda>x. wr n k (x - step))) n) (\<lambda>n.
       if j < d then bnd (rd key j) (\<lambda>x. wr n j (x + step * d)) else Inr n))"

definition find_neighbors ::
  "HashTable \<Rightarrow> int \<Rightarrow> int \<Rightarrow> int \<Rightarrow> int \<Rightarrow> Neighbors list \<Rightarrow> error + Neighbors list" where
  "find_neighbors hash_table d M j i blur_neighbors =
     bnd (HashTable_getKey hash_table i) (\<lambda>key.
     bnd (probe_key key d j 1) (\<lambda>n1'.
     bnd (probe_key key d j (- 1)) (\<lambda>n2'.
       wr blur_neighbors (j * M + i)
         (Neighbors (snd (HashTable_find hash_table n1' False))
                    (snd (HashTable_find hash_table n2' False))))))"

text \<open>
  \<^verbatim>\<open>init(feature, feature_size, N)\<close> on the object \<open>this\<close>.  The old tables are released
  and replaced, so that the result does not depend on them.
\<close>

definition init :: "Permutohedral \<Rightarrow> real list \<Rightarrow> int \<Rightarrow> int \<Rightarrow> error + Permutohedral" where
  "init this feature feature_size N =
     (let d = feature_size; hash_table = HashTable_new d (N * (d + 1)) in
      bnd (new_array ((d + 1) * N) 0) (\<lambda>offset.
      bnd (new_array ((d + 1) * N) 0) (\<lambda>barycentric.
      bnd (scale_factors d) (\<lambda>scale_factor.
      bnd (canonical_simplex d) (\<lambda>canonical.
      bnd (for_loop [0..N - 1] (init_point feature feature_size d scale_factor canonical)
             (hash_table, offset, barycentric)) (\<lambda>st.
        case st of (hash_table, offset, barycentric) \<Rightarrow>
          let M = HashTable_size hash_table in
          bnd (new_array ((d + 1) * M) (Neighbors 0 0)) (\<lambda>blur_neighbors.
          bnd (for_loop [0..d] (\<lambda>j. for_loop [0..M - 1] (find_neighbors hash_table d M j))
                 blur_neighbors) (\<lambda>blur_neighbors.
          Inr \<lparr>offset_p = Some offset, barycentric_p = Some barycentric,
               blur_neighbors_p = Some blur_neighbors, N_p = N, M_p = M, d_p = d\<rparr>))))))))"

section \<open>Binary32 arithmetic\<close>

text \<open>
  The C++ computes in \<^verbatim>\<open>float\<close>.  The definitions of the section before read every
  operation of \<^verbatim>\<open>init\<close> over the reals, which is the algorithm as it is designed; the
  definitions of this section and the next read it in binary32: the result of every
  operation is the exact result rounded to the nearest number with 24 significant bits,
  a tie going to the even significand, with exponents from \<open>-126\<close> (below, the spacing
  stays \<open>2\<^sup>-\<^sup>1\<^sup>4\<^sup>9\<close>).  There is no upper end: an operation that overflows to an infinity
  in the C++ is not modelled, and neither is a NaN.  \<^verbatim>\<open>int\<close> is unbounded; a store into a
  \<^verbatim>\<open>short\<close> keeps the low 16 bits.
\<close>

definition round_even :: "real \<Rightarrow> int" where
  "round_even y =
     (let n = \<lfloor>y\<rfloor>; r = y - of_int n in
      if r < 1 / 2 then n else if 1 / 2 < r then n + 1 else if even n then n else n + 1)"

definition f32 :: "real \<Rightarrow> real" where
  "f32 x =
     (if x = 0 then 0
      else let e = max \<lfloor>log 2 \<bar>x\<bar>\<rfloor> (- 126) in
        of_int (round_even (x / power_int 2 (e - 23))) * power_int 2 (e - 23))"




section \<open>Building the lattice in binary32\<close>











section \<open>Notions used in the statements\<close>

text \<open>
  A lattice as \<^verbatim>\<open>init\<close> leaves it: the three tables are allocated, the corner tables
  hold \<open>(d+1)*N\<close> entries and the neighbour table \<open>(d+1)*M\<close>, every corner is a vertex
  index below \<open>M\<close> and every neighbour is a vertex index below \<open>M\<close> or the "not found"
  value \<open>-1\<close>.
\<close>

definition lattice_ok :: "Permutohedral \<Rightarrow> bool" where
  "lattice_ok p \<longleftrightarrow>
     0 \<le> N_p p \<and> 0 \<le> M_p p \<and> 0 \<le> d_p p \<and>
     (case offset_p p of None \<Rightarrow> False
      | Some offs \<Rightarrow> int (length offs) = (d_p p + 1) * N_p p \<and>
          list_all (\<lambda>x. 0 \<le> x \<and> x < M_p p) offs) \<and>
     (case barycentric_p p of None \<Rightarrow> False
      | Some bs \<Rightarrow> int (length bs) = (d_p p + 1) * N_p p) \<and>
     (case blur_neighbors_p p of None \<Rightarrow> False
      | Some nbs \<Rightarrow> int (length nbs) = (d_p p + 1) * M_p p \<and>
          list_all (\<lambda>nb. - 1 \<le> n1 nb \<and> n1 nb < M_p p \<and> - 1 \<le> n2 nb \<and> n2 nb < M_p p) nbs)"

text \<open>Entry \<open>i\<close> of a table behind a pointer.\<close>

definition tab :: "'a list option \<Rightarrow> int \<Rightarrow> 'a" where
  "tab t i = (case t of Some xs \<Rightarrow> xs ! nat i)"

text \<open>
  The list \<open>xs\<close> with the \<open>n\<close> entries from index \<open>base\<close> on replaced: entry \<open>base + k\<close>
  becomes \<open>G k\<close> of its old value.
\<close>

definition upd_seg :: "'a list \<Rightarrow> int \<Rightarrow> int \<Rightarrow> (int \<Rightarrow> 'a \<Rightarrow> 'a) \<Rightarrow> 'a list" where
  "upd_seg xs base n G =
     map (\<lambda>m. if base \<le> int m \<and> int m < base + n then G (int m - base) (xs ! m) else xs ! m)
       [0..<length xs]"

text \<open>
  The value the blur writes for vertex \<open>i\<close>, channel \<open>k\<close> on axis \<open>j\<close>, read from the
  buffer \<open>values\<close>.
\<close>

definition blur_val :: "Permutohedral \<Rightarrow> int \<Rightarrow> int \<Rightarrow> real list \<Rightarrow> int \<Rightarrow> int \<Rightarrow> real" where
  "blur_val p vs j vals i k =
     vals ! nat ((i + 1) * vs + k)
       + 0.5 * (vals ! nat ((n1 (tab (blur_neighbors_p p) (j * M_p p + i)) + 1) * vs + k)
              + vals ! nat ((n2 (tab (blur_neighbors_p p) (j * M_p p + i)) + 1) * vs + k))"

text \<open>
  The value the slice leaves in channel \<open>k\<close> of an output point whose row in the corner
  tables is \<open>r\<close>: the sum over the corners, accumulated from 0 in the order of the loop.
\<close>

definition slice_term :: "Permutohedral \<Rightarrow> int \<Rightarrow> real \<Rightarrow> real list \<Rightarrow> int \<Rightarrow> int \<Rightarrow> real \<Rightarrow> int \<Rightarrow> real" where
  "slice_term p vs alpha vals r k acc j =
     acc + tab (barycentric_p p) (r * (d_p p + 1) + j)
             * vals ! nat ((tab (offset_p p) (r * (d_p p + 1) + j) + 1) * vs + k) * alpha"

definition slice_val :: "Permutohedral \<Rightarrow> int \<Rightarrow> real \<Rightarrow> real list \<Rightarrow> int \<Rightarrow> int \<Rightarrow> real" where
  "slice_val p vs alpha vals r k =
     foldl (\<lambda>acc j. acc + tab (barycentric_p p) (r * (d_p p + 1) + j)
                            * vals ! nat ((tab (offset_p p) (r * (d_p p + 1) + j) + 1) * vs + k)
                            * alpha) 0 [0..d_p p]"

text \<open>
  The state of the two scratch buffers of \<^verbatim>\<open>compute\<close> after the splat and the first
  \<open>n\<close> axis passes of the blur: the buffer read next, and the other one.
\<close>

definition filtered ::
  "Permutohedral \<Rightarrow> real list \<Rightarrow> int \<Rightarrow> int \<Rightarrow> int \<Rightarrow> int \<Rightarrow> error + real list \<times> real list" where
  "filtered p inp value_size in_offset in_size n =
     bnd (new_array ((M_p p + 2) * value_size) 0) (\<lambda>values.
     bnd (new_array ((M_p p + 2) * value_size) 0) (\<lambda>new_values.
     bnd (splat p inp value_size in_offset (range_size p in_offset in_size) values) (\<lambda>values.
       for_loop [0..n - 1] (blur_axis p value_size) (values, new_values))))"

text \<open>The residual of coordinate \<open>i\<close>: how far the elevated point is from the rounded one.\<close>

definition residual :: "real list \<Rightarrow> real list \<Rightarrow> int \<Rightarrow> real" where
  "residual elevated rem0 i = elevated ! nat i - rem0 ! nat i"

text \<open>How many indices in \<open>lo..hi\<close> satisfy \<open>P\<close>.\<close>

definition cnt :: "(int \<Rightarrow> bool) \<Rightarrow> int \<Rightarrow> int \<Rightarrow> int" where
  "cnt P lo hi = int (length (filter P [lo..hi]))"

text \<open>
  Coordinate \<open>j\<close> comes before coordinate \<open>m\<close> in the order of the residuals: its residual
  is larger, or equal with \<open>j\<close> the smaller index.  The rank of \<open>m\<close> counts the coordinates
  before it.
\<close>

definition beats :: "(int \<Rightarrow> real) \<Rightarrow> int \<Rightarrow> int \<Rightarrow> bool" where
  "beats res j m \<longleftrightarrow> res m < res j \<or> (res m = res j \<and> j < m)"

definition rank_count :: "(int \<Rightarrow> real) \<Rightarrow> int \<Rightarrow> int \<Rightarrow> int" where
  "rank_count res d m = cnt (\<lambda>b. res m < res b) (m + 1) d + cnt (\<lambda>a. \<not> res a < res m) 0 (m - 1)"

text \<open>The rank after the plane correction, and what the correction adds to \<open>rem0\<close>.\<close>

definition wrap_rank :: "int \<Rightarrow> int \<Rightarrow> int" where
  "wrap_rank d r = (if r < 0 then r + (d + 1) else if r > d then r - (d + 1) else r)"

definition wrap_rem0 :: "int \<Rightarrow> int \<Rightarrow> real" where
  "wrap_rem0 d r = (if r < 0 then real_of_int (d + 1) else if r > d then - real_of_int (d + 1) else 0)"

text \<open>
  What the accumulation over the coordinates \<open>0..i-1\<close> has put into slot \<open>m\<close> of the
  barycentric array, the coordinate \<open>c\<close> carrying the value \<open>v c\<close>.
\<close>

definition bary_acc :: "int \<Rightarrow> int list \<Rightarrow> (int \<Rightarrow> real) \<Rightarrow> int \<Rightarrow> int \<Rightarrow> real" where
  "bary_acc d rank v i m =
     (\<Sum>c\<leftarrow>[0..i - 1]. (if d - rank ! nat c = m then v c else 0)
                        - (if d - rank ! nat c + 1 = m then v c else 0))"

text \<open>
  The first steps of \<^verbatim>\<open>init\<close> for one feature point, up to the plane correction: the
  elevated vector, the corrected ranks and the corrected \<open>rem0\<close>.
\<close>

definition point_simplex ::
  "real list \<Rightarrow> int \<Rightarrow> real list \<Rightarrow> int \<Rightarrow> error + real list \<times> int list \<times> real list" where
  "point_simplex feature fbase scale_factor d =
     bnd (elevate feature fbase scale_factor d) (\<lambda>elevated.
     bnd (round_elevated elevated d) (\<lambda>rs.
     bnd (rank_residuals elevated (fst rs) d) (\<lambda>rank.
     bnd (correct_rank rank (fst rs) (snd rs) d) (\<lambda>rr.
     Inr (elevated, fst rr, snd rr)))))"

text \<open>The value \<open>(elevated[i] - rem0[i]) * down_factor\<close> that coordinate \<open>i\<close> contributes.\<close>

definition weight_of :: "real list \<Rightarrow> real list \<Rightarrow> int \<Rightarrow> int \<Rightarrow> real" where
  "weight_of elevated rem0 d i = (elevated ! nat i - rem0 ! nat i) * (1 / real_of_int (d + 1))"

text \<open>A neighbour pair whose two indices are vertex indices below \<open>M\<close> or \<open>-1\<close>.\<close>

definition neighbor_ok :: "int \<Rightarrow> Neighbors \<Rightarrow> bool" where
  "neighbor_ok M nb \<longleftrightarrow> - 1 \<le> n1 nb \<and> n1 nb < M \<and> - 1 \<le> n2 nb \<and> n2 nb < M"

text \<open>
  Two scratch buffers of \<open>M+2\<close> slots, \<open>A\<close> with \<open>vs\<close> channels and \<open>B\<close> with one, where
  channel \<open>k\<close> of every slot of \<open>A\<close> is \<open>c k\<close> times that slot of \<open>B\<close>.
\<close>

definition scaled :: "int \<Rightarrow> int \<Rightarrow> (int \<Rightarrow> real) \<Rightarrow> real list \<Rightarrow> real list \<Rightarrow> bool" where
  "scaled M vs c A B \<longleftrightarrow>
     int (length A) = (M + 2) * vs \<and> int (length B) = (M + 2) * 1
     \<and> (\<forall>m k. 0 \<le> m \<and> m < M + 2 \<and> 0 \<le> k \<and> k < vs \<longrightarrow> A ! nat (m * vs + k) = c k * B ! nat (m * 1 + 0))"

text \<open>
  The lattice of the single one-dimensional feature point \<open>0.0\<close>: two vertices with keys
  \<open>0\<close> and \<open>1\<close>, weights \<open>1\<close> and \<open>0\<close>.
\<close>

definition lattice_one :: Permutohedral where
  "lattice_one =
     \<lparr>offset_p = Some [0, 1], barycentric_p = Some [1, 0],
      blur_neighbors_p =
        Some [Neighbors 1 (- 1), Neighbors (- 1) 0, Neighbors (- 1) 1, Neighbors 0 (- 1)],
      N_p = 1, M_p = 2, d_p = 1\<rparr>"

text \<open>
  The lattice of the two one-dimensional feature points \<open>0.0\<close> and \<open>sqrt 3\<close>, which sit on
  the vertices with keys \<open>0\<close> and \<open>2\<close>: four vertices, with keys \<open>0\<close> to \<open>3\<close>.
\<close>

definition lattice_two :: Permutohedral where
  "lattice_two =
     \<lparr>offset_p = Some [0, 1, 2, 3], barycentric_p = Some [1, 0, 1, 0],
      blur_neighbors_p =
        Some [Neighbors 1 (- 1), Neighbors 2 0, Neighbors 3 1, Neighbors (- 1) 2,
              Neighbors (- 1) 1, Neighbors 0 2, Neighbors 1 3, Neighbors 2 (- 1)],
      N_p = 2, M_p = 4, d_p = 1\<rparr>"


section \<open>Basic facts about the memory operations and loops\<close>

lemma bnd_Inr [simp]: "bnd (Inr x) f = f x"
  by (simp add: bnd_def)

lemma bnd_Inl [simp]: "bnd (Inl e) f = Inl e"
  by (simp add: bnd_def)

lemma bnd_eq_Inr: "bnd m f = Inr y \<longleftrightarrow> (\<exists>x. m = Inr x \<and> f x = Inr y)"
  by (cases m) simp_all

lemma for_loop_empty [simp]: "b < a \<Longrightarrow> for_loop [a..b] body s = Inr s"
  by simp

lemma for_loop_append:
  "for_loop (xs @ ys) body s = bnd (for_loop xs body s) (for_loop ys body)"
  by (induction xs arbitrary: s) (auto split: sum.splits)


lemma rd_in: "0 \<le> i \<Longrightarrow> i < int (length xs) \<Longrightarrow> rd xs i = Inr (xs ! nat i)"
  by (simp add: rd_def)

lemma wr_in: "0 \<le> i \<Longrightarrow> i < int (length xs) \<Longrightarrow> wr xs i v = Inr (xs[nat i := v])"
  by (simp add: wr_def)

lemma rdp_Some: "rdp (Some xs) i = rd xs i"
  by (simp add: rdp_def deref_def)

lemma for_loop_cong:
  "(\<And>i s. i \<in> set xs \<Longrightarrow> body i s = body' i s) \<Longrightarrow> for_loop xs body s = for_loop xs body' s"
  by (induction xs arbitrary: s) (auto split: sum.splits)

lemma for_loop_snoc:
  "a \<le> b \<Longrightarrow> for_loop [a..b] body s = bnd (for_loop [a..b - 1] body s) (body b)"
proof -
  have "for_loop [b] body = body b"
    by (rule ext) (simp split: sum.splits)
  then show ?thesis if "a \<le> b"
    using that by (simp add: upto_rec2 [of a b] for_loop_append)
qed

lemma for_loop_total:
  assumes "I a s"
    and "\<And>i s. a \<le> i \<Longrightarrow> i \<le> b \<Longrightarrow> I i s \<Longrightarrow> \<exists>s'. body i s = Inr s' \<and> I (i + 1) s'"
    and "a \<le> b + 1"
  shows "\<exists>s'. for_loop [a..b] body s = Inr s' \<and> I (b + 1) s'"
proof -
  have "\<And>c. a \<le> c + 1 \<Longrightarrow> c \<le> b \<Longrightarrow> nat (c + 1 - a) = n
          \<Longrightarrow> \<exists>s'. for_loop [a..c] body s = Inr s' \<and> I (c + 1) s'" for n
  proof (induction n)
    case 0
    then have "c = a - 1" by simp
    with assms(1) show ?case by simp
  next
    case (Suc n)
    then have ac: "a \<le> c" by linarith
    from Suc.prems have "nat (c - 1 + 1 - a) = n" by linarith
    with Suc.IH [of "c - 1"] Suc.prems ac
    obtain s1 where s1: "for_loop [a..c - 1] body s = Inr s1" "I c s1" by auto
    from assms(2) [OF ac Suc.prems(2) s1(2)]
    obtain s2 where "body c s1 = Inr s2" "I (c + 1) s2" by auto
    with s1 ac show ?case by (simp add: for_loop_snoc)
  qed
  from this [of b "nat (b + 1 - a)"] assms(3) show ?thesis by simp
qed

lemma for_loop_down_total:
  assumes "I (b + 1) s"
    and "\<And>i s. a \<le> i \<Longrightarrow> i \<le> b \<Longrightarrow> I (i + 1) s \<Longrightarrow> \<exists>s'. body i s = Inr s' \<and> I i s'"
    and "a \<le> b + 1"
  shows "\<exists>s'. for_loop (rev [a..b]) body s = Inr s' \<and> I a s'"
proof -
  have "\<And>c. a \<le> c \<Longrightarrow> c \<le> b + 1 \<Longrightarrow> nat (b + 1 - c) = n
          \<Longrightarrow> \<exists>s'. for_loop (rev [c..b]) body s = Inr s' \<and> I c s'" for n
  proof (induction n)
    case 0
    then have "c = b + 1" by simp
    with assms(1) show ?case by simp
  next
    case (Suc n)
    then have cb: "c \<le> b" by linarith
    from Suc.prems have "nat (b + 1 - (c + 1)) = n" by linarith
    with Suc.IH [of "c + 1"] Suc.prems cb
    obtain s1 where s1: "for_loop (rev [c + 1..b]) body s = Inr s1" "I (c + 1) s1" by auto
    from assms(2) [OF Suc.prems(1) cb s1(2)]
    obtain s2 where s2: "body c s1 = Inr s2" "I c s2" by auto
    have "for_loop (rev [c..b]) body s = bnd (for_loop (rev [c + 1..b]) body s) (for_loop [c] body)"
      using cb by (simp add: upto_rec1 [of c b] for_loop_append)
    with s1 s2 show ?case by simp
  qed
  from this [of a "nat (b + 1 - a)"] assms(3) show ?thesis by simp
qed

lemma drop_update_here: "i < length xs \<Longrightarrow> drop i (xs[i := v]) = v # drop (Suc i) xs"
  by (simp add: upd_conv_take_nth_drop)


lemma for_loop_keep:
  assumes "I s"
    and "\<And>i s. a \<le> i \<Longrightarrow> i \<le> b \<Longrightarrow> I s \<Longrightarrow> \<exists>s'. body i s = Inr s' \<and> I s'"
  shows "\<exists>s'. for_loop [a..b] body s = Inr s' \<and> I s'"
proof (cases "a \<le> b + 1")
  case True
  from for_loop_total [where I = "\<lambda>_. I", OF assms(1) assms(2) True] show ?thesis by simp
next
  case False
  then show ?thesis using assms(1) by simp
qed

lemma length_upd_seg [simp]: "length (upd_seg xs base n G) = length xs"
  by (simp add: upd_seg_def)

lemma nth_upd_seg:
  "m < length xs \<Longrightarrow> upd_seg xs base n G ! m =
     (if base \<le> int m \<and> int m < base + n then G (int m - base) (xs ! m) else xs ! m)"
  by (simp add: upd_seg_def)

lemma nth_upd_seg_outside:
  "m < length xs \<Longrightarrow> \<not> (base \<le> int m \<and> int m < base + n) \<Longrightarrow> upd_seg xs base n G ! m = xs ! m"
  by (auto simp: nth_upd_seg)

lemma nth_upd_seg_inside:
  assumes "0 \<le> k" "k < n" "0 \<le> base" "base + k < int (length xs)"
  shows "upd_seg xs base n G ! nat (base + k) = G k (xs ! nat (base + k))"
proof -
  have "nat (base + k) < length xs" using assms by linarith
  moreover have "int (nat (base + k)) = base + k" using assms by simp
  ultimately show ?thesis using assms by (simp add: nth_upd_seg)
qed

lemma for_loop_seg:
  assumes "0 \<le> base" "0 \<le> n" "base + n \<le> int (length xs)"
    and body: "\<And>k s. 0 \<le> k \<Longrightarrow> k < n \<Longrightarrow> length s = length xs
                 \<Longrightarrow> body k s = Inr (s[nat (base + k) := G k (s ! nat (base + k))])"
  shows "for_loop [0..n - 1] body xs = Inr (upd_seg xs base n G)"
proof -
  have "\<exists>s'. for_loop [0..n - 1] body xs = Inr s' \<and> s' = upd_seg xs base ((n - 1) + 1) G"
  proof (rule for_loop_total [where I = "\<lambda>k s. s = upd_seg xs base k G"])
    show "xs = upd_seg xs base 0 G"
      by (rule nth_equalityI) (auto simp: nth_upd_seg)
  next
    fix k s
    assume k: "0 \<le> k" "k \<le> n - 1" and s: "s = upd_seg xs base k G"
    have "upd_seg xs base (k + 1) G = s[nat (base + k) := G k (s ! nat (base + k))]"
      unfolding s
    proof (rule nth_equalityI)
      fix m assume "m < length (upd_seg xs base (k + 1) G)"
      then have m: "m < length xs" by simp
      have "int m = base + k \<longleftrightarrow> m = nat (base + k)"
        using k assms(1) by linarith
      moreover have "int m = base + k \<Longrightarrow> int m - base = k" by simp
      ultimately show "upd_seg xs base (k + 1) G ! m
          = (upd_seg xs base k G)[nat (base + k) := G k (upd_seg xs base k G ! nat (base + k))] ! m"
        using m k assms(1-3) by (auto simp: nth_upd_seg nth_list_update)
    qed simp
    moreover have "body k s = Inr (s[nat (base + k) := G k (s ! nat (base + k))])"
      using k s by (intro body) simp_all
    ultimately show "\<exists>s'. body k s = Inr s' \<and> s' = upd_seg xs base (k + 1) G"
      by simp
  next
    show "0 \<le> n - 1 + 1" using assms by simp
  qed
  then show ?thesis by simp
qed

section \<open>The filter on a built lattice\<close>


lemma slot_bounds:
  fixes m n vs k :: int
  assumes "0 \<le> m" "m < n" "0 \<le> k" "k < vs"
  shows "0 \<le> m * vs + k" "m * vs + k < n * vs"
proof -
  have vs: "0 \<le> vs" using assms by simp
  show "0 \<le> m * vs + k" using assms vs by simp
  have "(m + 1) * vs \<le> n * vs"
    using assms vs by (intro mult_right_mono) simp_all
  then show "m * vs + k < n * vs"
    using assms by (simp add: algebra_simps)
qed

lemma slot_end:
  fixes m n vs :: int
  assumes "0 \<le> vs" "m < n"
  shows "m * vs + vs \<le> n * vs"
proof -
  have "(m + 1) * vs \<le> n * vs"
    using assms by (intro mult_right_mono) simp_all
  then show ?thesis by (simp add: algebra_simps)
qed

lemma lattice_ok_neighbors:
  assumes "lattice_ok p" "0 \<le> j" "j \<le> d_p p" "0 \<le> i" "i < M_p p"
  shows "rdp (blur_neighbors_p p) (j * M_p p + i) = Inr (tab (blur_neighbors_p p) (j * M_p p + i))"
    and "- 1 \<le> n1 (tab (blur_neighbors_p p) (j * M_p p + i))"
    and "n1 (tab (blur_neighbors_p p) (j * M_p p + i)) < M_p p"
    and "- 1 \<le> n2 (tab (blur_neighbors_p p) (j * M_p p + i))"
    and "n2 (tab (blur_neighbors_p p) (j * M_p p + i)) < M_p p"
proof -
  from assms(1) obtain nbs where nbs: "blur_neighbors_p p = Some nbs"
    "int (length nbs) = (d_p p + 1) * M_p p"
    "list_all (\<lambda>nb. - 1 \<le> n1 nb \<and> n1 nb < M_p p \<and> - 1 \<le> n2 nb \<and> n2 nb < M_p p) nbs"
    by (auto simp: lattice_ok_def split: option.splits)
  have b: "0 \<le> j * M_p p + i" "j * M_p p + i < (d_p p + 1) * M_p p"
    using slot_bounds [of j "d_p p + 1" i "M_p p"] assms by simp_all
  then have lt: "nat (j * M_p p + i) < length nbs" using nbs(2) by linarith
  show "rdp (blur_neighbors_p p) (j * M_p p + i) = Inr (tab (blur_neighbors_p p) (j * M_p p + i))"
    using b nbs by (simp add: rdp_def deref_def rd_in tab_def)
  from nbs(3) lt have "(\<lambda>nb. - 1 \<le> n1 nb \<and> n1 nb < M_p p \<and> - 1 \<le> n2 nb \<and> n2 nb < M_p p) (nbs ! nat (j * M_p p + i))"
    by (simp add: list_all_length)
  then show "- 1 \<le> n1 (tab (blur_neighbors_p p) (j * M_p p + i))"
    and "n1 (tab (blur_neighbors_p p) (j * M_p p + i)) < M_p p"
    and "- 1 \<le> n2 (tab (blur_neighbors_p p) (j * M_p p + i))"
    and "n2 (tab (blur_neighbors_p p) (j * M_p p + i)) < M_p p"
    using nbs(1) by (simp_all add: tab_def)
qed

lemma blur_vertex_exact:
  assumes ok: "lattice_ok p" and vs: "0 \<le> vs" and j: "0 \<le> j" "j \<le> d_p p"
    and i: "0 \<le> i" "i < M_p p"
    and len: "int (length (vals :: real list)) = (M_p p + 2) * vs"
      "int (length (nv :: real list)) = (M_p p + 2) * vs"
  shows "blur_vertex p vs j vals i nv
           = Inr (upd_seg nv ((i + 1) * vs) vs (\<lambda>k _. blur_val p vs j vals i k))"
proof -
  let ?nb = "tab (blur_neighbors_p p) (j * M_p p + i)"
  note nb = lattice_ok_neighbors [OF ok j i]
  have "for_loop [0..vs - 1] (\<lambda>k new_values.
         bnd (rd vals ((i + 1) * vs + k)) (\<lambda>old_val.
         bnd (rd vals ((n1 ?nb + 1) * vs + k)) (\<lambda>n1_val.
         bnd (rd vals ((n2 ?nb + 1) * vs + k)) (\<lambda>n2_val.
         wr new_values ((i + 1) * vs + k) (old_val + 0.5 * (n1_val + n2_val)))))) nv
        = Inr (upd_seg nv ((i + 1) * vs) vs (\<lambda>k _. blur_val p vs j vals i k))"
  proof (rule for_loop_seg)
    show "0 \<le> (i + 1) * vs" using i vs by simp
    show "0 \<le> vs" by fact
    show "(i + 1) * vs + vs \<le> int (length nv)"
      using slot_end [of vs "i + 1" "M_p p + 2"] vs i len by simp
  next
    fix k and s :: "real list" assume k: "0 \<le> k" "k < vs" and s: "length s = length nv"
    have a: "0 \<le> (i + 1) * vs + k" "(i + 1) * vs + k < int (length vals)"
      using slot_bounds [of "i + 1" "M_p p + 2" k vs] i k len by simp_all
    have b: "0 \<le> (n1 ?nb + 1) * vs + k" "(n1 ?nb + 1) * vs + k < int (length vals)"
      using slot_bounds [of "n1 ?nb + 1" "M_p p + 2" k vs] nb k len by simp_all
    have c: "0 \<le> (n2 ?nb + 1) * vs + k" "(n2 ?nb + 1) * vs + k < int (length vals)"
      using slot_bounds [of "n2 ?nb + 1" "M_p p + 2" k vs] nb k len by simp_all
    have d: "(i + 1) * vs + k < int (length s)" using a s len by simp
    show "bnd (rd vals ((i + 1) * vs + k)) (\<lambda>old_val.
         bnd (rd vals ((n1 ?nb + 1) * vs + k)) (\<lambda>n1_val.
         bnd (rd vals ((n2 ?nb + 1) * vs + k)) (\<lambda>n2_val.
         wr s ((i + 1) * vs + k) (old_val + 0.5 * (n1_val + n2_val)))))
       = Inr (s[nat ((i + 1) * vs + k) := blur_val p vs j vals i k])"
      using a b c d by (simp add: rd_in wr_in blur_val_def)
  qed
  then show ?thesis
    by (simp add: blur_vertex_def nb(1))
qed

lemma blur_axis_total:
  assumes ok: "lattice_ok p" and vs: "0 \<le> vs" and j: "0 \<le> j" "j \<le> d_p p"
    and len: "int (length vals) = (M_p p + 2) * vs" "int (length nv) = (M_p p + 2) * vs"
  shows "\<exists>nv'. blur_axis p vs j (vals, nv) = Inr (nv', vals)
           \<and> length nv' = length nv
           \<and> (\<forall>i k. 0 \<le> i \<and> i < M_p p \<and> 0 \<le> k \<and> k < vs
                 \<longrightarrow> nv' ! nat ((i + 1) * vs + k) = blur_val p vs j vals i k)
           \<and> (\<forall>m. m < length nv \<and> (int m < vs \<or> (M_p p + 1) * vs \<le> int m)
                 \<longrightarrow> nv' ! m = nv ! m)"
proof -
  let ?I = "\<lambda>i s. length s = length nv
      \<and> (\<forall>i' k. 0 \<le> i' \<and> i' < i \<and> 0 \<le> k \<and> k < vs
            \<longrightarrow> s ! nat ((i' + 1) * vs + k) = blur_val p vs j vals i' k)
      \<and> (\<forall>m. m < length nv \<and> (int m < vs \<or> (i + 1) * vs \<le> int m) \<longrightarrow> s ! m = nv ! m)"
  have "\<exists>s'. for_loop [0..M_p p - 1] (blur_vertex p vs j vals) nv = Inr s' \<and> ?I (M_p p - 1 + 1) s'"
  proof (rule for_loop_total [where I = ?I])
    show "?I 0 nv" by simp
  next
    fix i s assume i: "0 \<le> i" "i \<le> M_p p - 1" and I: "?I i s"
    let ?s' = "upd_seg s ((i + 1) * vs) vs (\<lambda>k _. blur_val p vs j vals i k)"
    have ex: "blur_vertex p vs j vals i s = Inr ?s'"
      using i I len by (intro blur_vertex_exact ok vs j) simp_all
    have L: "int (length s) = (M_p p + 2) * vs" using I len by simp
    have "?I (i + 1) ?s'"
    proof (intro conjI allI impI)
      show "length ?s' = length nv" using I by simp
    next
      fix i' k assume h: "0 \<le> i' \<and> i' < i + 1 \<and> 0 \<le> k \<and> k < vs"
      have b: "0 \<le> (i' + 1) * vs + k" "(i' + 1) * vs + k < (M_p p + 2) * vs"
        using slot_bounds [of "i' + 1" "M_p p + 2" k vs] h i by simp_all
      then have lt: "nat ((i' + 1) * vs + k) < length s" using L by linarith
      show "?s' ! nat ((i' + 1) * vs + k) = blur_val p vs j vals i' k"
      proof (cases "i' = i")
        case True
        with h b lt show ?thesis by (simp add: nth_upd_seg)
      next
        case False
        with h have "i' < i" by simp
        then have "(i' + 1) * vs + k < (i + 1) * vs"
          using slot_bounds [of "i' + 1" "i + 1" k vs] h by simp
        with b lt I h \<open>i' < i\<close> show ?thesis by (simp add: nth_upd_seg)
      qed
    next
      fix m assume h: "m < length nv \<and> (int m < vs \<or> (i + 1 + 1) * vs \<le> int m)"
      have "1 * vs \<le> (i + 1) * vs" using i vs by (intro mult_right_mono) simp_all
      then have "vs \<le> (i + 1) * vs" by simp
      moreover have "(i + 1) * vs + vs = (i + 1 + 1) * vs" by (simp add: algebra_simps)
      ultimately have out: "\<not> ((i + 1) * vs \<le> int m \<and> int m < (i + 1) * vs + vs)"
        and old: "int m < vs \<or> (i + 1) * vs \<le> int m"
        using h vs by linarith+
      from h I have "m < length s" by simp
      then have "?s' ! m = s ! m" using out by (rule nth_upd_seg_outside)
      moreover from I old h have "s ! m = nv ! m" by blast
      ultimately show "?s' ! m = nv ! m" by simp
    qed
    with ex show "\<exists>s'. blur_vertex p vs j vals i s = Inr s' \<and> ?I (i + 1) s'" by blast
  next
    show "0 \<le> M_p p - 1 + 1" using ok by (simp add: lattice_ok_def)
  qed
  then show ?thesis by (auto simp: blur_axis_def)
qed


lemma compute_filtered:
  "compute p out inp vs in_off out_off in_sz out_sz =
     bnd (filtered p inp vs in_off in_sz (d_p p + 1)) (\<lambda>bufs.
       slice p vs out_off (range_size p out_off out_sz) (alpha_of (d_p p)) (fst bufs) out)"
  by (simp add: compute_def filtered_def blur_def bnd_def split: sum.splits)

lemma lattice_ok_corner:
  assumes "lattice_ok p" "0 \<le> r" "r < N_p p" "0 \<le> j" "j \<le> d_p p"
  shows "rdp (offset_p p) (r * (d_p p + 1) + j) = Inr (tab (offset_p p) (r * (d_p p + 1) + j))"
    and "rdp (barycentric_p p) (r * (d_p p + 1) + j)
           = Inr (tab (barycentric_p p) (r * (d_p p + 1) + j))"
    and "0 \<le> tab (offset_p p) (r * (d_p p + 1) + j)"
    and "tab (offset_p p) (r * (d_p p + 1) + j) < M_p p"
proof -
  from assms(1) obtain offs bs where t: "offset_p p = Some offs"
    "int (length offs) = (d_p p + 1) * N_p p"
    "list_all (\<lambda>x. 0 \<le> x \<and> x < M_p p) offs"
    "barycentric_p p = Some bs" "int (length bs) = (d_p p + 1) * N_p p"
    by (auto simp: lattice_ok_def split: option.splits)
  have b: "0 \<le> r * (d_p p + 1) + j" "r * (d_p p + 1) + j < N_p p * (d_p p + 1)"
    using slot_bounds [of r "N_p p" j "d_p p + 1"] assms by simp_all
  then have lt: "nat (r * (d_p p + 1) + j) < length offs"
    using t(2) by (simp add: mult.commute)
  show "rdp (offset_p p) (r * (d_p p + 1) + j) = Inr (tab (offset_p p) (r * (d_p p + 1) + j))"
    using b t by (simp add: rdp_def deref_def rd_in tab_def mult.commute)
  show "rdp (barycentric_p p) (r * (d_p p + 1) + j)
           = Inr (tab (barycentric_p p) (r * (d_p p + 1) + j))"
    using b t by (simp add: rdp_def deref_def rd_in tab_def mult.commute)
  from t(3) lt have "(\<lambda>x. 0 \<le> x \<and> x < M_p p) (offs ! nat (r * (d_p p + 1) + j))"
    by (simp add: list_all_length)
  then show "0 \<le> tab (offset_p p) (r * (d_p p + 1) + j)"
    and "tab (offset_p p) (r * (d_p p + 1) + j) < M_p p"
    using t(1) by (simp_all add: tab_def)
qed


lemma splat_corner_exact:
  assumes ok: "lattice_ok p" and vs: "0 \<le> vs" and r: "0 \<le> in_off + i" "in_off + i < N_p p"
    and j: "0 \<le> j" "j \<le> d_p p" and i: "0 \<le> i" "(i + 1) * vs \<le> int (length inp)"
    and len: "int (length vals) = (M_p p + 2) * vs"
  shows "splat_corner p inp vs in_off i j vals
       = Inr (upd_seg vals ((tab (offset_p p) ((in_off + i) * (d_p p + 1) + j) + 1) * vs) vs
                (\<lambda>k v. v + tab (barycentric_p p) ((in_off + i) * (d_p p + 1) + j)
                               * inp ! nat (i * vs + k)))"
proof -
  let ?ov = "tab (offset_p p) ((in_off + i) * (d_p p + 1) + j)"
  let ?w = "tab (barycentric_p p) ((in_off + i) * (d_p p + 1) + j)"
  note c = lattice_ok_corner [OF ok r j]
  have "for_loop [0..vs - 1] (\<lambda>k vals.
             bnd (rd inp (i * vs + k)) (\<lambda>x.
             bnd (rd vals ((?ov + 1) * vs + k)) (\<lambda>v.
             wr vals ((?ov + 1) * vs + k) (v + ?w * x)))) vals
       = Inr (upd_seg vals ((?ov + 1) * vs) vs (\<lambda>k v. v + ?w * inp ! nat (i * vs + k)))"
  proof (rule for_loop_seg)
    show "0 \<le> (?ov + 1) * vs" using c vs by simp
    show "0 \<le> vs" by fact
    show "(?ov + 1) * vs + vs \<le> int (length vals)"
      using slot_end [of vs "?ov + 1" "M_p p + 2"] vs c len by simp
  next
    fix k and s :: "real list" assume k: "0 \<le> k" "k < vs" and s: "length s = length vals"
    have a: "0 \<le> i * vs + k" "i * vs + k < int (length inp)"
      using slot_bounds [of i "i + 1" k vs] i k by simp_all
    have b: "0 \<le> (?ov + 1) * vs + k" "(?ov + 1) * vs + k < int (length s)"
      using slot_bounds [of "?ov + 1" "M_p p + 2" k vs] c k len s by simp_all
    show "bnd (rd inp (i * vs + k)) (\<lambda>x.
             bnd (rd s ((?ov + 1) * vs + k)) (\<lambda>v.
             wr s ((?ov + 1) * vs + k) (v + ?w * x)))
       = Inr (s[nat ((?ov + 1) * vs + k) := s ! nat ((?ov + 1) * vs + k) + ?w * inp ! nat (i * vs + k)])"
      using a b by (simp add: rd_in wr_in)
  qed
  then show ?thesis by (simp add: splat_corner_def c(1,2))
qed

lemma input_slot:
  fixes i vs n :: int
  assumes "0 \<le> vs" "i < n" "n * vs \<le> len"
  shows "(i + 1) * vs \<le> len"
proof -
  have "(i + 1) * vs \<le> n * vs" using assms by (intro mult_right_mono) simp_all
  with assms show ?thesis by simp
qed

lemma slot_ge:
  fixes m vs :: int
  assumes "0 \<le> vs" "1 \<le> m"
  shows "vs \<le> m * vs"
proof -
  have "1 * vs \<le> m * vs" using assms by (intro mult_right_mono) simp_all
  then show ?thesis by simp
qed

lemma splat_total:
  assumes ok: "lattice_ok p" and vs: "0 \<le> vs"
    and rng: "0 \<le> in_off" "0 \<le> in_sz" "in_off + in_sz \<le> N_p p"
    and inp: "in_sz * vs \<le> int (length inp)"
    and len: "int (length vals) = (M_p p + 2) * vs"
  shows "\<exists>vals'. splat p inp vs in_off in_sz vals = Inr vals'
           \<and> length vals' = length vals
           \<and> (\<forall>m. int m < vs \<longrightarrow> vals' ! m = vals ! m)"
proof -
  let ?I = "\<lambda>(i::int) s. length s = length vals \<and> (\<forall>m. int m < vs \<longrightarrow> s ! m = vals ! m)"
  have "\<exists>s'. for_loop [0..in_sz - 1] (splat_point p inp vs in_off) vals = Inr s'
           \<and> ?I (in_sz - 1 + 1) s'"
  proof (rule for_loop_total [where I = ?I])
    show "?I 0 vals" by simp
  next
    fix i s assume i: "0 \<le> i" "i \<le> in_sz - 1" and I: "?I i s"
    have inb: "(i + 1) * vs \<le> int (length inp)"
      using input_slot [OF vs _ inp, of i] i by simp
    have "\<exists>s'. for_loop [0..d_p p] (splat_corner p inp vs in_off i) s = Inr s' \<and> ?I (d_p p + 1) s'"
    proof (rule for_loop_total [where I = ?I])
      show "?I 0 s" using I by simp
    next
      fix j t assume j: "0 \<le> j" "j \<le> d_p p" and J: "?I j t"
      let ?ov = "tab (offset_p p) ((in_off + i) * (d_p p + 1) + j)"
      let ?t' = "upd_seg t ((?ov + 1) * vs) vs
                (\<lambda>k v. v + tab (barycentric_p p) ((in_off + i) * (d_p p + 1) + j) * inp ! nat (i * vs + k))"
      have r: "0 \<le> in_off + i" "in_off + i < N_p p" using rng i by simp_all
      note c = lattice_ok_corner [OF ok r j]
      have ex: "splat_corner p inp vs in_off i j t = Inr ?t'"
        using J len by (intro splat_corner_exact ok vs r j i inb) simp
      have lo: "vs \<le> (?ov + 1) * vs" using c vs by (intro slot_ge) simp_all
      have "?I (j + 1) ?t'"
      proof (intro conjI allI impI)
        show "length ?t' = length vals" using J by simp
      next
        fix m assume m: "int m < vs"
        have "vs \<le> (M_p p + 2) * vs" using ok vs by (intro slot_ge) (simp_all add: lattice_ok_def)
        moreover from J have "length t = length vals" by simp
        ultimately have "m < length t" using m len by linarith
        then have "?t' ! m = t ! m"
        proof (rule nth_upd_seg_outside)
          show "\<not> ((?ov + 1) * vs \<le> int m \<and> int m < (?ov + 1) * vs + vs)"
            using m lo by linarith
        qed
        with J m show "?t' ! m = vals ! m" by simp
      qed
      with ex show "\<exists>s'. splat_corner p inp vs in_off i j t = Inr s' \<and> ?I (j + 1) s'"
        by blast
    next
      show "0 \<le> d_p p + 1" using ok by (simp add: lattice_ok_def)
    qed
    then show "\<exists>s'. splat_point p inp vs in_off i s = Inr s' \<and> ?I (i + 1) s'"
      by (simp add: splat_point_def)
  next
    show "0 \<le> in_sz - 1 + 1" using rng by simp
  qed
  then show ?thesis by (simp add: splat_def)
qed


lemma slice_corner_exact:
  assumes ok: "lattice_ok p" and vs: "0 \<le> vs" and r: "0 \<le> out_off + i" "out_off + i < N_p p"
    and j: "0 \<le> j" "j \<le> d_p p" and i: "0 \<le> i" "(i + 1) * vs \<le> int (length out)"
    and len: "int (length vals) = (M_p p + 2) * vs"
  shows "slice_corner p vs out_off alpha vals i j out
       = Inr (upd_seg out (i * vs) vs
                (\<lambda>k cur. cur + tab (barycentric_p p) ((out_off + i) * (d_p p + 1) + j)
                     * vals ! nat ((tab (offset_p p) ((out_off + i) * (d_p p + 1) + j) + 1) * vs + k)
                     * alpha))"
proof -
  let ?ov = "tab (offset_p p) ((out_off + i) * (d_p p + 1) + j)"
  let ?w = "tab (barycentric_p p) ((out_off + i) * (d_p p + 1) + j)"
  note c = lattice_ok_corner [OF ok r j]
  have "for_loop [0..vs - 1] (\<lambda>k out.
         bnd (rd vals ((?ov + 1) * vs + k)) (\<lambda>v.
         bnd (rd out (i * vs + k)) (\<lambda>cur.
         wr out (i * vs + k) (cur + ?w * v * alpha)))) out
       = Inr (upd_seg out (i * vs) vs (\<lambda>k cur. cur + ?w * vals ! nat ((?ov + 1) * vs + k) * alpha))"
  proof (rule for_loop_seg)
    show "0 \<le> i * vs" using i vs by simp
    show "0 \<le> vs" by fact
    show "i * vs + vs \<le> int (length out)" using i by (simp add: algebra_simps)
  next
    fix k and s :: "real list" assume k: "0 \<le> k" "k < vs" and s: "length s = length out"
    have a: "0 \<le> i * vs + k" "i * vs + k < int (length s)"
      using slot_bounds [of i "i + 1" k vs] i k s by simp_all
    have b: "0 \<le> (?ov + 1) * vs + k" "(?ov + 1) * vs + k < int (length vals)"
      using slot_bounds [of "?ov + 1" "M_p p + 2" k vs] c k len by simp_all
    show "bnd (rd vals ((?ov + 1) * vs + k)) (\<lambda>v.
         bnd (rd s (i * vs + k)) (\<lambda>cur.
         wr s (i * vs + k) (cur + ?w * v * alpha)))
       = Inr (s[nat (i * vs + k) := s ! nat (i * vs + k) + ?w * vals ! nat ((?ov + 1) * vs + k) * alpha])"
      using a b by (simp add: rd_in wr_in)
  qed
  then show ?thesis by (simp add: slice_corner_def c(1,2))
qed

lemma slice_val_alt: "slice_val p vs alpha vals r k = foldl (slice_term p vs alpha vals r k) 0 [0..d_p p]"
  unfolding slice_val_def slice_term_def ..

lemma slice_point_total:
  assumes ok: "lattice_ok p" and vs: "0 \<le> vs" and r: "0 \<le> out_off + i" "out_off + i < N_p p"
    and i: "0 \<le> i" "(i + 1) * vs \<le> int (length out)"
    and len: "int (length vals) = (M_p p + 2) * vs"
  shows "\<exists>out'. slice_point p vs out_off alpha vals i out = Inr out'
           \<and> length out' = length out
           \<and> (\<forall>k. 0 \<le> k \<and> k < vs
                 \<longrightarrow> out' ! nat (i * vs + k) = slice_val p vs alpha vals (out_off + i) k)
           \<and> (\<forall>m. m < length out \<and> \<not> (i * vs \<le> int m \<and> int m < i * vs + vs)
                 \<longrightarrow> out' ! m = out ! m)"
proof -
  let ?out0 = "upd_seg out (i * vs) vs (\<lambda>_ _. 0)"
  have base: "0 \<le> i * vs" using i vs by simp
  have top: "i * vs + vs \<le> int (length out)" using i by (simp add: algebra_simps)
  have zero: "for_loop [0..vs - 1] (\<lambda>k out. wr out (i * vs + k) 0) out = Inr ?out0"
  proof (rule for_loop_seg [OF base vs top])
    fix k and s :: "real list" assume k: "0 \<le> k" "k < vs" and s: "length s = length out"
    have "0 \<le> i * vs + k" "i * vs + k < int (length s)"
      using slot_bounds [of i "i + 1" k vs] i k s by simp_all
    then show "wr s (i * vs + k) 0 = Inr (s[nat (i * vs + k) := 0])" by (simp add: wr_in)
  qed
  let ?I = "\<lambda>j s. length s = length out
      \<and> (\<forall>k. 0 \<le> k \<and> k < vs
            \<longrightarrow> s ! nat (i * vs + k)
                  = foldl (slice_term p vs alpha vals (out_off + i) k) 0 [0..j - 1])
      \<and> (\<forall>m. m < length out \<and> \<not> (i * vs \<le> int m \<and> int m < i * vs + vs) \<longrightarrow> s ! m = out ! m)"
  have "\<exists>s'. for_loop [0..d_p p] (slice_corner p vs out_off alpha vals i) ?out0 = Inr s'
          \<and> ?I (d_p p + 1) s'"
  proof (rule for_loop_total [where I = ?I])
    show "?I 0 ?out0"
    proof (intro conjI allI impI)
      fix k assume k: "0 \<le> k \<and> k < vs"
      then have "i * vs + k < int (length out)" using top by simp
      with k base show "?out0 ! nat (i * vs + k)
          = foldl (slice_term p vs alpha vals (out_off + i) k) 0 [0..0 - 1]"
        by (simp add: nth_upd_seg_inside)
    next
      fix m assume "m < length out \<and> \<not> (i * vs \<le> int m \<and> int m < i * vs + vs)"
      then show "?out0 ! m = out ! m" by (simp add: nth_upd_seg_outside)
    qed simp
  next
    fix j s assume j: "0 \<le> j" "j \<le> d_p p" and I: "?I j s"
    let ?G = "\<lambda>k cur. cur + tab (barycentric_p p) ((out_off + i) * (d_p p + 1) + j)
                     * vals ! nat ((tab (offset_p p) ((out_off + i) * (d_p p + 1) + j) + 1) * vs + k)
                     * alpha"
    let ?s' = "upd_seg s (i * vs) vs ?G"
    from I have ls: "length s = length out" by simp
    have ex: "slice_corner p vs out_off alpha vals i j s = Inr ?s'"
      using ls i by (intro slice_corner_exact ok vs r j len) simp_all
    have "?I (j + 1) ?s'"
    proof (intro conjI allI impI)
      show "length ?s' = length out" using ls by simp
    next
      fix k assume k: "0 \<le> k \<and> k < vs"
      then have "i * vs + k < int (length s)" using top ls by simp
      with k base have "?s' ! nat (i * vs + k) = ?G k (s ! nat (i * vs + k))"
        by (simp add: nth_upd_seg_inside)
      also have "\<dots> = slice_term p vs alpha vals (out_off + i) k
                        (foldl (slice_term p vs alpha vals (out_off + i) k) 0 [0..j - 1]) j"
        using I k by (simp add: slice_term_def)
      also have "\<dots> = foldl (slice_term p vs alpha vals (out_off + i) k) 0 [0..j + 1 - 1]"
        using j by (simp add: upto_rec2 [of 0 j])
      finally show "?s' ! nat (i * vs + k)
          = foldl (slice_term p vs alpha vals (out_off + i) k) 0 [0..j + 1 - 1]" .
    next
      fix m assume m: "m < length out \<and> \<not> (i * vs \<le> int m \<and> int m < i * vs + vs)"
      then have "?s' ! m = s ! m" using ls by (simp add: nth_upd_seg_outside)
      with I m show "?s' ! m = out ! m" by simp
    qed
    with ex show "\<exists>s'. slice_corner p vs out_off alpha vals i j s = Inr s' \<and> ?I (j + 1) s'"
      by blast
  next
    show "0 \<le> d_p p + 1" using ok by (simp add: lattice_ok_def)
  qed
  then show ?thesis
    by (simp add: slice_point_def zero slice_val_alt)
qed

lemma slice_total:
  assumes ok: "lattice_ok p" and vs: "0 \<le> vs"
    and rng: "0 \<le> out_off" "0 \<le> out_sz" "out_off + out_sz \<le> N_p p"
    and out: "out_sz * vs \<le> int (length out)"
    and len: "int (length vals) = (M_p p + 2) * vs"
  shows "\<exists>out'. slice p vs out_off out_sz alpha vals out = Inr out'
           \<and> length out' = length out
           \<and> (\<forall>i k. 0 \<le> i \<and> i < out_sz \<and> 0 \<le> k \<and> k < vs
                 \<longrightarrow> out' ! nat (i * vs + k) = slice_val p vs alpha vals (out_off + i) k)
           \<and> (\<forall>m. m < length out \<and> out_sz * vs \<le> int m \<longrightarrow> out' ! m = out ! m)"
proof -
  let ?I = "\<lambda>i s. length s = length out
      \<and> (\<forall>i' k. 0 \<le> i' \<and> i' < i \<and> 0 \<le> k \<and> k < vs
            \<longrightarrow> s ! nat (i' * vs + k) = slice_val p vs alpha vals (out_off + i') k)
      \<and> (\<forall>m. m < length out \<and> i * vs \<le> int m \<longrightarrow> s ! m = out ! m)"
  have "\<exists>s'. for_loop [0..out_sz - 1] (slice_point p vs out_off alpha vals) out = Inr s'
          \<and> ?I (out_sz - 1 + 1) s'"
  proof (rule for_loop_total [where I = ?I])
    show "?I 0 out" by simp
  next
    fix i s assume i: "0 \<le> i" "i \<le> out_sz - 1" and I: "?I i s"
    from I have ls: "length s = length out" by simp
    have top: "(i + 1) * vs \<le> int (length s)"
      using input_slot [OF vs _ out, of i] i ls by simp
    have r: "0 \<le> out_off + i" "out_off + i < N_p p" using rng i by simp_all
    from slice_point_total [OF ok vs r i(1) top len, of alpha]
    obtain s' where s': "slice_point p vs out_off alpha vals i s = Inr s'"
      "length s' = length s"
      "\<And>k. 0 \<le> k \<Longrightarrow> k < vs \<Longrightarrow> s' ! nat (i * vs + k) = slice_val p vs alpha vals (out_off + i) k"
      "\<And>m. m < length s \<Longrightarrow> \<not> (i * vs \<le> int m \<and> int m < i * vs + vs) \<Longrightarrow> s' ! m = s ! m"
      by blast
    have "?I (i + 1) s'"
    proof (intro conjI allI impI)
      show "length s' = length out" using s'(2) ls by simp
    next
      fix i' k assume h: "0 \<le> i' \<and> i' < i + 1 \<and> 0 \<le> k \<and> k < vs"
      show "s' ! nat (i' * vs + k) = slice_val p vs alpha vals (out_off + i') k"
      proof (cases "i' = i")
        case True
        with h s'(3) show ?thesis by simp
      next
        case False
        with h have lt: "i' < i" by simp
        have b: "0 \<le> i' * vs + k" "i' * vs + k < i * vs"
          using slot_bounds [of i' i k vs] h lt by simp_all
        have "i * vs \<le> (i + 1) * vs" using vs by (simp add: algebra_simps)
        with b top have "nat (i' * vs + k) < length s" by linarith
        moreover have "\<not> (i * vs \<le> int (nat (i' * vs + k)) \<and> int (nat (i' * vs + k)) < i * vs + vs)"
          using b by simp
        ultimately have "s' ! nat (i' * vs + k) = s ! nat (i' * vs + k)" by (rule s'(4))
        with I h lt show ?thesis by simp
      qed
    next
      fix m assume m: "m < length out \<and> (i + 1) * vs \<le> int m"
      have e: "(i + 1) * vs = i * vs + vs" by (simp add: algebra_simps)
      have "s' ! m = s ! m"
      proof (rule s'(4))
        show "m < length s" using m ls by simp
        show "\<not> (i * vs \<le> int m \<and> int m < i * vs + vs)" using m e by linarith
      qed
      moreover have "i * vs \<le> int m" using m e vs by linarith
      ultimately show "s' ! m = out ! m" using I m by simp
    qed
    with s'(1) show "\<exists>s'. slice_point p vs out_off alpha vals i s = Inr s' \<and> ?I (i + 1) s'"
      by blast
  next
    show "0 \<le> out_sz - 1 + 1" using rng by simp
  qed
  then show ?thesis by (simp add: slice_def)
qed


lemma filtered_total:
  assumes ok: "lattice_ok p" and vs: "0 \<le> vs"
    and rng: "0 \<le> in_off" "0 \<le> range_size p in_off in_sz"
      "in_off + range_size p in_off in_sz \<le> N_p p"
    and inp: "range_size p in_off in_sz * vs \<le> int (length inp)"
    and n: "0 \<le> n" "n \<le> d_p p + 1"
  shows "\<exists>vals nv. filtered p inp vs in_off in_sz n = Inr (vals, nv)
           \<and> int (length vals) = (M_p p + 2) * vs \<and> int (length nv) = (M_p p + 2) * vs
           \<and> (\<forall>m. int m < vs \<longrightarrow> vals ! m = 0 \<and> nv ! m = 0)"
proof -
  let ?L = "(M_p p + 2) * vs"
  let ?z = "replicate (nat ?L) (0::real)"
  have L: "0 \<le> ?L" using ok vs by (simp add: lattice_ok_def)
  then have lz: "int (length ?z) = ?L" by simp
  have new: "new_array ?L (0::real) = Inr ?z" using L by (simp add: new_array_def)
  from splat_total [OF ok vs rng inp lz]
  obtain v0 where v0: "splat p inp vs in_off (range_size p in_off in_sz) ?z = Inr v0"
    "length v0 = length ?z" "\<And>m. int m < vs \<Longrightarrow> v0 ! m = ?z ! m"
    by blast
  have z0: "?z ! m = 0" if "int m < vs" for m
  proof -
    have "vs \<le> ?L" using ok vs by (intro slot_ge) (simp_all add: lattice_ok_def)
    with that have "m < nat ?L" by linarith
    then show ?thesis by simp
  qed
  let ?I = "\<lambda>(j::int) (st :: real list \<times> real list).
      int (length (fst st)) = ?L \<and> int (length (snd st)) = ?L
      \<and> (\<forall>m. int m < vs \<longrightarrow> fst st ! m = 0 \<and> snd st ! m = 0)"
  have "\<exists>st. for_loop [0..n - 1] (blur_axis p vs) (v0, ?z) = Inr st \<and> ?I (n - 1 + 1) st"
  proof (rule for_loop_total [where I = ?I])
    show "?I 0 (v0, ?z)" using v0(2,3) z0 lz by simp
  next
    fix j st assume j: "0 \<le> j" "j \<le> n - 1" and I: "?I j st"
    obtain a b where st: "st = (a, b)" by (cases st)
    from I st have la: "int (length a) = ?L" and lb: "int (length b) = ?L"
      and zz: "\<And>m. int m < vs \<Longrightarrow> a ! m = 0 \<and> b ! m = 0" by simp_all
    have jd: "j \<le> d_p p" using j n by simp
    from blur_axis_total [OF ok vs j(1) jd la lb]
    obtain b' where b': "blur_axis p vs j (a, b) = Inr (b', a)" "length b' = length b"
      "\<And>m. m < length b \<Longrightarrow> int m < vs \<or> (M_p p + 1) * vs \<le> int m \<Longrightarrow> b' ! m = b ! m"
      by blast
    have "b' ! m = 0" if m: "int m < vs" for m
    proof -
      have "vs \<le> ?L" using ok vs by (intro slot_ge) (simp_all add: lattice_ok_def)
      with m lb have "m < length b" by linarith
      with b'(3) m zz show ?thesis by simp
    qed
    with b' la lb zz st show "\<exists>s'. blur_axis p vs j st = Inr s' \<and> ?I (j + 1) s'" by simp
  next
    show "0 \<le> n - 1 + 1" using n by simp
  qed
  then show ?thesis
    by (auto simp: filtered_def new v0(1))
qed


lemma compute_total:
  assumes ok: "lattice_ok p" and vs: "0 \<le> vs"
    and inr: "0 \<le> in_off" "0 \<le> range_size p in_off in_sz"
      "in_off + range_size p in_off in_sz \<le> N_p p"
      "range_size p in_off in_sz * vs \<le> int (length inp)"
    and outr: "0 \<le> out_off" "0 \<le> range_size p out_off out_sz"
      "out_off + range_size p out_off out_sz \<le> N_p p"
      "range_size p out_off out_sz * vs \<le> int (length out)"
  shows "\<exists>vals nv r.
           filtered p inp vs in_off in_sz (d_p p + 1) = Inr (vals, nv)
           \<and> int (length vals) = (M_p p + 2) * vs
           \<and> compute p out inp vs in_off out_off in_sz out_sz = Inr r
           \<and> length r = length out
           \<and> (\<forall>i k. 0 \<le> i \<and> i < range_size p out_off out_sz \<and> 0 \<le> k \<and> k < vs \<longrightarrow>
                 r ! nat (i * vs + k) = slice_val p vs (alpha_of (d_p p)) vals (out_off + i) k)
           \<and> (\<forall>m. m < length out \<and> range_size p out_off out_sz * vs \<le> int m \<longrightarrow> r ! m = out ! m)"
proof -
  have dn: "0 \<le> d_p p + 1" using ok by (simp add: lattice_ok_def)
  from filtered_total [OF ok vs inr dn order_refl]
  obtain vals nv where f: "filtered p inp vs in_off in_sz (d_p p + 1) = Inr (vals, nv)"
    "int (length vals) = (M_p p + 2) * vs"
    by blast
  from slice_total [where alpha = "alpha_of (d_p p)", OF ok vs outr f(2)]
  obtain r where r: "slice p vs out_off (range_size p out_off out_sz) (alpha_of (d_p p)) vals out = Inr r"
    "length r = length out"
    "\<forall>i k. 0 \<le> i \<and> i < range_size p out_off out_sz \<and> 0 \<le> k \<and> k < vs \<longrightarrow>
        r ! nat (i * vs + k) = slice_val p vs (alpha_of (d_p p)) vals (out_off + i) k"
    "\<forall>m. m < length out \<and> range_size p out_off out_sz * vs \<le> int m \<longrightarrow> r ! m = out ! m"
    by blast
  have "compute p out inp vs in_off out_off in_sz out_sz = Inr r"
    by (simp add: compute_filtered f(1) r(1))
  with f r(2,3,4) show ?thesis by blast
qed

text \<open>Unfolding the filter on concrete inputs.\<close>

lemmas filter_evals = upto.simps eval_nat_numeral new_array_def range_size_def
  splat_def splat_point_def splat_corner_def rdp_def deref_def rd_def wr_def
  blur_def blur_axis_def blur_vertex_def slice_def slice_point_def slice_corner_def alpha_of_def

lemma lattice_ok_one: "lattice_ok lattice_one"
  by (simp add: lattice_ok_def lattice_one_def)

lemma lattice_ok_two: "lattice_ok lattice_two"
  by (simp add: lattice_ok_def lattice_two_def)

lemma filtered_step:
  assumes "0 \<le> j"
  shows "filtered p inp vs in_off in_sz (j + 1)
           = bnd (filtered p inp vs in_off in_sz j) (blur_axis p vs j)"
proof -
  have "for_loop [0..j + 1 - 1] (blur_axis p vs) s
          = bnd (for_loop [0..j - 1] (blur_axis p vs) s) (blur_axis p vs j)" for s
    using for_loop_snoc [of 0 j "blur_axis p vs" s] assms by simp
  then show ?thesis
    by (simp add: filtered_def bnd_def split: sum.splits)
qed

text \<open>
  C3.  On a built lattice \<^verbatim>\<open>compute\<close> splats into a zeroed buffer and then runs the
  blur as the sequence of buffer pairs \<open>st 0, st 1, \<dots>, st (d+1)\<close>: \<open>st 0\<close> is the splat
  result paired with the other zeroed buffer, and for each axis \<open>j\<close> from \<open>0\<close> to \<open>d\<close>, in
  this order, the pass along \<open>j\<close> takes \<open>st j\<close> to \<open>st (j+1)\<close>.  The pass reads the first
  buffer of \<open>st j\<close> (old) and writes, for every vertex \<open>i\<close> in \<open>0..M-1\<close> and every channel
  \<open>k\<close>, the value \<open>old[i] + 0.5 * (old[n1] + old[n2])\<close> into the other buffer, where a
  vertex sits in the slot one above its index and \<open>n1\<close>, \<open>n2\<close> are the axis-\<open>j\<close>
  neighbours of \<open>i\<close>; slot 0 of old, which a neighbour \<open>-1\<close> reads, holds zero.  The two
  buffers are then swapped: the buffer written is the one the next pass reads.  The blur
  of \<^verbatim>\<open>compute\<close> returns \<open>st (d+1)\<close>, and \<^verbatim>\<open>compute\<close> slices its first buffer.
\<close>

theorem compute_blur_passes:
  assumes "lattice_ok p" and "0 \<le> value_size"
    and "0 \<le> in_offset" and "0 \<le> range_size p in_offset in_size"
    and "in_offset + range_size p in_offset in_size \<le> N_p p"
    and "range_size p in_offset in_size * value_size \<le> int (length inp)"
  shows "\<exists>st.
           splat p inp value_size in_offset (range_size p in_offset in_size)
               (replicate (nat ((M_p p + 2) * value_size)) 0) = Inr (fst (st 0))
           \<and> snd (st 0) = replicate (nat ((M_p p + 2) * value_size)) 0
           \<and> (\<forall>j. 0 \<le> j \<and> j \<le> d_p p \<longrightarrow>
                 blur_axis p value_size j (st j) = Inr (st (j + 1))
                 \<and> snd (st (j + 1)) = fst (st j)
                 \<and> (\<forall>i k. 0 \<le> i \<and> i < M_p p \<and> 0 \<le> k \<and> k < value_size \<longrightarrow>
                       fst (st (j + 1)) ! nat ((i + 1) * value_size + k)
                         = fst (st j) ! nat ((i + 1) * value_size + k)
                           + 0.5 * (fst (st j) ! nat ((n1 (tab (blur_neighbors_p p) (j * M_p p + i)) + 1)
                                                        * value_size + k)
                                  + fst (st j) ! nat ((n2 (tab (blur_neighbors_p p) (j * M_p p + i)) + 1)
                                                        * value_size + k)))
                 \<and> (\<forall>k. 0 \<le> k \<and> k < value_size \<longrightarrow> fst (st j) ! nat (0 * value_size + k) = 0))
           \<and> blur p value_size (st 0) = Inr (st (d_p p + 1))
           \<and> compute p out inp value_size in_offset out_offset in_size out_size
               = slice p value_size out_offset (range_size p out_offset out_size)
                   (alpha_of (d_p p)) (fst (st (d_p p + 1))) out"
proof -
  let ?f = "filtered p inp value_size in_offset in_size"
  let ?z = "replicate (nat ((M_p p + 2) * value_size)) (0::real)"
  define st where "st j = (case ?f j of Inr x \<Rightarrow> x | Inl e \<Rightarrow> ([], []))" for j
  have d: "0 \<le> d_p p" and M: "0 \<le> M_p p" using assms(1) by (simp_all add: lattice_ok_def)
  have tot: "\<exists>vals nv. ?f n = Inr (vals, nv)
      \<and> int (length vals) = (M_p p + 2) * value_size \<and> int (length nv) = (M_p p + 2) * value_size
      \<and> (\<forall>m. int m < value_size \<longrightarrow> vals ! m = 0 \<and> nv ! m = 0)"
    if "0 \<le> n" "n \<le> d_p p + 1" for n
    by (rule filtered_total [OF assms that])
  have f: "?f n = Inr (st n)" if "0 \<le> n" "n \<le> d_p p + 1" for n
    using tot [OF that] by (auto simp: st_def)
  have L: "0 \<le> (M_p p + 2) * value_size" using M assms(2) by (intro mult_nonneg_nonneg) simp_all
  then have new: "new_array ((M_p p + 2) * value_size) (0::real) = Inr ?z"
    by (simp add: new_array_def)
  have f0: "?f 0 = bnd (splat p inp value_size in_offset (range_size p in_offset in_size) ?z)
                     (\<lambda>v. Inr (v, ?z))"
    by (simp add: filtered_def new)
  from f [of 0] d have s0: "?f 0 = Inr (st 0)" by simp
  with f0 have "bnd (splat p inp value_size in_offset (range_size p in_offset in_size) ?z)
                  (\<lambda>v. Inr (v, ?z)) = Inr (st 0)" by simp
  then obtain v where "splat p inp value_size in_offset (range_size p in_offset in_size) ?z = Inr v"
    "st 0 = (v, ?z)" by (auto simp: bnd_eq_Inr)
  then have sp: "splat p inp value_size in_offset (range_size p in_offset in_size) ?z
                      = Inr (fst (st 0))" and z0: "snd (st 0) = ?z"
    by simp_all
  have bl: "blur p value_size (st 0) = Inr (st (d_p p + 1))"
  proof -
    have "?f (d_p p + 1) = for_loop [0..d_p p + 1 - 1] (blur_axis p value_size) (fst (st 0), ?z)"
      by (simp add: filtered_def new sp)
    moreover have "st 0 = (fst (st 0), ?z)" using z0 by (cases "st 0") simp
    ultimately have "?f (d_p p + 1) = blur p value_size (st 0)" by (simp add: blur_def)
    with f [of "d_p p + 1"] d show ?thesis by simp
  qed
  have cmp: "compute p out inp value_size in_offset out_offset in_size out_size
               = slice p value_size out_offset (range_size p out_offset out_size)
                   (alpha_of (d_p p)) (fst (st (d_p p + 1))) out"
    using f [of "d_p p + 1"] d by (simp add: compute_filtered)
  have pass: "blur_axis p value_size j (st j) = Inr (st (j + 1))
                 \<and> snd (st (j + 1)) = fst (st j)
                 \<and> (\<forall>i k. 0 \<le> i \<and> i < M_p p \<and> 0 \<le> k \<and> k < value_size \<longrightarrow>
                       fst (st (j + 1)) ! nat ((i + 1) * value_size + k)
                         = fst (st j) ! nat ((i + 1) * value_size + k)
                           + 0.5 * (fst (st j) ! nat ((n1 (tab (blur_neighbors_p p) (j * M_p p + i)) + 1)
                                                        * value_size + k)
                                  + fst (st j) ! nat ((n2 (tab (blur_neighbors_p p) (j * M_p p + i)) + 1)
                                                        * value_size + k)))
                 \<and> (\<forall>k. 0 \<le> k \<and> k < value_size \<longrightarrow> fst (st j) ! nat (0 * value_size + k) = 0)"
    if j: "0 \<le> j \<and> j \<le> d_p p" for j
  proof -
    from j have jr: "0 \<le> j" "j \<le> d_p p + 1" "j \<le> d_p p" by simp_all
    from tot [OF jr(1,2)] f [OF jr(1,2)]
    obtain vals nv where v: "st j = (vals, nv)"
      "int (length vals) = (M_p p + 2) * value_size" "int (length nv) = (M_p p + 2) * value_size"
      "\<And>m. int m < value_size \<Longrightarrow> vals ! m = 0" by auto
    from blur_axis_total [OF assms(1,2) jr(1,3) v(2,3)]
    obtain nv' where n: "blur_axis p value_size j (vals, nv) = Inr (nv', vals)"
      "\<And>i k. 0 \<le> i \<and> i < M_p p \<and> 0 \<le> k \<and> k < value_size
          \<Longrightarrow> nv' ! nat ((i + 1) * value_size + k) = blur_val p value_size j vals i k"
      by blast
    have "?f (j + 1) = Inr (nv', vals)"
      using filtered_step [OF jr(1), of p inp value_size in_offset in_size] f [OF jr(1,2)] v(1) n(1)
      by simp
    moreover have "?f (j + 1) = Inr (st (j + 1))" using j by (intro f) simp_all
    ultimately have e: "st (j + 1) = (nv', vals)" by simp
    have zero: "vals ! nat (0 * value_size + k) = 0" if "0 \<le> k \<and> k < value_size" for k
      using that by (intro v(4)) simp
    show ?thesis
      unfolding e v(1) fst_conv snd_conv
      using n zero by (simp add: blur_val_def)
  qed
  show ?thesis
    using sp z0 pass bl cmp by (intro exI [of _ st]) blast
qed

theorem compute_blur_passes_witness:
  "lattice_ok lattice_one \<and> (0::int) \<le> 1 \<and> (0::int) \<le> 0 \<and> 0 \<le> range_size lattice_one 0 (- 1)
     \<and> 0 + range_size lattice_one 0 (- 1) \<le> N_p lattice_one
     \<and> range_size lattice_one 0 (- 1) * 1 \<le> int (length [1::real])
     \<and> splat lattice_one [1] 1 0 1 [0, 0, 0, 0] = Inr [0, 1, 0, 0]
     \<and> blur_axis lattice_one 1 0 ([0, 1, 0, 0], [0, 0, 0, 0]) = Inr ([0, 1, 1 / 2, 0], [0, 1, 0, 0])
     \<and> blur_axis lattice_one 1 1 ([0, 1, 1 / 2, 0], [0, 1, 0, 0])
         = Inr ([0, 5 / 4, 1, 0], [0, 1, 1 / 2, 0])
     \<and> blur lattice_one 1 ([0, 1, 0, 0], [0, 0, 0, 0]) = Inr ([0, 5 / 4, 1, 0], [0, 1, 1 / 2, 0])
     \<and> compute lattice_one [9] [1] 1 0 0 (- 1) (- 1)
         = slice lattice_one 1 0 1 (2 / 3) [0, 5 / 4, 1, 0] [9]
     \<and> compute lattice_one [9] [1] 1 0 0 (- 1) (- 1) = Inr [5 / 6]"
proof -
  have rs: "range_size lattice_one 0 (- 1) = 1" by (simp add: range_size_def lattice_one_def)
  have dm: "d_p lattice_one = 1" "M_p lattice_one = 2" "N_p lattice_one = 1"
    by (simp_all add: lattice_one_def)
  have hyp: "(0::int) \<le> 1" "(0::int) \<le> 0" "0 \<le> range_size lattice_one 0 (- 1)"
    "0 + range_size lattice_one 0 (- 1) \<le> N_p lattice_one"
    "range_size lattice_one 0 (- 1) * 1 \<le> int (length [1::real])"
    by (simp_all add: rs dm)
  from compute_blur_passes [OF lattice_ok_one hyp, of "[9]" 0 "- 1"]
  obtain st where st: "splat lattice_one [1] 1 0 (range_size lattice_one 0 (- 1))
               (replicate (nat ((M_p lattice_one + 2) * 1)) 0) = Inr (fst (st 0))"
    "snd (st 0) = replicate (nat ((M_p lattice_one + 2) * 1)) 0"
    "\<forall>j. 0 \<le> j \<and> j \<le> d_p lattice_one \<longrightarrow>
        blur_axis lattice_one 1 j (st j) = Inr (st (j + 1))"
    "blur lattice_one 1 (st 0) = Inr (st (d_p lattice_one + 1))"
    "compute lattice_one [9] [1] 1 0 0 (- 1) (- 1)
       = slice lattice_one 1 0 (range_size lattice_one 0 (- 1))
           (alpha_of (d_p lattice_one)) (fst (st (d_p lattice_one + 1))) [9]"
    by blast
  have z: "replicate (nat ((M_p lattice_one + 2) * 1)) (0::real) = [0, 0, 0, 0]"
    "replicate (nat (M_p lattice_one + 2)) (0::real) = [0, 0, 0, 0]"
    by (simp_all add: dm eval_nat_numeral)
  have sp: "splat lattice_one [1] 1 0 1 [0, 0, 0, 0] = Inr [0, 1, 0, 0]"
    by (simp add: filter_evals splat_def splat_point_def splat_corner_def lattice_one_def
        rdp_def deref_def rd_def wr_def)
  with st(1,2) have s0: "st 0 = ([0, 1, 0, 0], [0, 0, 0, 0])"
    by (cases "st 0") (simp add: rs z)
  have a0: "blur_axis lattice_one 1 0 ([0, 1, 0, 0], [0, 0, 0, 0])
              = Inr ([0, 1, 1 / 2, 0], [0, 1, 0, 0])"
    by (simp add: filter_evals blur_axis_def blur_vertex_def lattice_one_def
        rdp_def deref_def rd_def wr_def)
  have "blur_axis lattice_one 1 0 (st 0) = Inr (st (0 + 1))"
    by (intro st(3) [rule_format]) (simp add: dm)
  with a0 s0 have s1: "st 1 = ([0, 1, 1 / 2, 0], [0, 1, 0, 0])" by simp
  have a1: "blur_axis lattice_one 1 1 ([0, 1, 1 / 2, 0], [0, 1, 0, 0])
              = Inr ([0, 5 / 4, 1, 0], [0, 1, 1 / 2, 0])"
    by (simp add: filter_evals blur_axis_def blur_vertex_def lattice_one_def
        rdp_def deref_def rd_def wr_def)
  have "blur_axis lattice_one 1 1 (st 1) = Inr (st (1 + 1))"
    by (intro st(3) [rule_format]) (simp add: dm)
  with a1 s1 have s2: "st 2 = ([0, 5 / 4, 1, 0], [0, 1, 1 / 2, 0])" by simp
  have al: "alpha_of 1 = 2 / 3" by (simp add: alpha_of_def)
  from st(4) s0 s2 have b: "blur lattice_one 1 ([0, 1, 0, 0], [0, 0, 0, 0])
      = Inr ([0, 5 / 4, 1, 0], [0, 1, 1 / 2, 0])" by (simp add: dm)
  from st(5) s2 have c: "compute lattice_one [9] [1] 1 0 0 (- 1) (- 1)
         = slice lattice_one 1 0 1 (2 / 3) [0, 5 / 4, 1, 0] [9]" by (simp add: dm rs al)
  have "slice lattice_one 1 0 1 (2 / 3) [0, 5 / 4, 1, 0] [9] = Inr [5 / 6]"
    by (simp add: filter_evals slice_def slice_point_def slice_corner_def lattice_one_def
        rdp_def deref_def rd_def wr_def)
  with c have c': "compute lattice_one [9] [1] 1 0 0 (- 1) (- 1) = Inr [5 / 6]" by simp
  show ?thesis
    using lattice_ok_one hyp sp a0 a1 b c c' by blast
qed

text \<open>
  C7.  On a built lattice, for every axis \<open>j\<close> in \<open>0..d\<close>: the splat and the passes before
  \<open>j\<close> return, and in the buffer that pass \<open>j\<close> reads, every channel of slot 0 (where a
  neighbour index \<open>-1\<close> lands after the shift by one) holds zero.  So a missing neighbour
  adds nothing to the blurred value: with \<open>n1 = -1\<close> the new value of a vertex is
  \<open>old[i] + 0.5 * old[n2]\<close>, and likewise for \<open>n2 = -1\<close>.
\<close>

theorem blur_sentinel_zero:
  assumes "lattice_ok p" and "0 \<le> value_size"
    and "0 \<le> in_offset" and "0 \<le> range_size p in_offset in_size"
    and "in_offset + range_size p in_offset in_size \<le> N_p p"
    and "range_size p in_offset in_size * value_size \<le> int (length inp)"
    and "0 \<le> j" and "j \<le> d_p p"
  shows "\<exists>vals new_values new'.
           filtered p inp value_size in_offset in_size j = Inr (vals, new_values)
           \<and> blur_axis p value_size j (vals, new_values) = Inr (new', vals)
           \<and> (\<forall>k. 0 \<le> k \<and> k < value_size \<longrightarrow> rd vals ((- 1 + 1) * value_size + k) = Inr 0)
           \<and> (\<forall>i k. 0 \<le> i \<and> i < M_p p \<and> 0 \<le> k \<and> k < value_size
                  \<and> n1 (tab (blur_neighbors_p p) (j * M_p p + i)) = - 1 \<longrightarrow>
                 new' ! nat ((i + 1) * value_size + k)
                   = vals ! nat ((i + 1) * value_size + k)
                     + 0.5 * vals ! nat ((n2 (tab (blur_neighbors_p p) (j * M_p p + i)) + 1)
                                           * value_size + k))
           \<and> (\<forall>i k. 0 \<le> i \<and> i < M_p p \<and> 0 \<le> k \<and> k < value_size
                  \<and> n2 (tab (blur_neighbors_p p) (j * M_p p + i)) = - 1 \<longrightarrow>
                 new' ! nat ((i + 1) * value_size + k)
                   = vals ! nat ((i + 1) * value_size + k)
                     + 0.5 * vals ! nat ((n1 (tab (blur_neighbors_p p) (j * M_p p + i)) + 1)
                                           * value_size + k))"
proof -
  have jn: "j \<le> d_p p + 1" using assms(8) by simp
  from filtered_total [OF assms(1-7) jn]
  obtain vals nv where f: "filtered p inp value_size in_offset in_size j = Inr (vals, nv)"
    "int (length vals) = (M_p p + 2) * value_size" "int (length nv) = (M_p p + 2) * value_size"
    "\<And>m. int m < value_size \<Longrightarrow> vals ! m = 0"
    by blast
  from blur_axis_total [OF assms(1,2,7,8) f(2,3)]
  obtain nv' where nv': "blur_axis p value_size j (vals, nv) = Inr (nv', vals)"
    "\<And>i k. 0 \<le> i \<and> i < M_p p \<and> 0 \<le> k \<and> k < value_size
        \<Longrightarrow> nv' ! nat ((i + 1) * value_size + k) = blur_val p value_size j vals i k"
    by blast
  have z: "vals ! nat k = 0" if "0 \<le> k" "k < value_size" for k
    using that f(4) [of "nat k"] by simp
  have "value_size \<le> (M_p p + 2) * value_size"
    using assms(1,2) by (intro slot_ge) (simp_all add: lattice_ok_def)
  then have rdz: "rd vals ((- 1 + 1) * value_size + k) = Inr 0" if "0 \<le> k" "k < value_size" for k
  proof -
    have "k < int (length vals)" using that f(2) \<open>value_size \<le> (M_p p + 2) * value_size\<close> by linarith
    with that z [of k] show ?thesis by (simp add: rd_in)
  qed
  show ?thesis
    using f(1) nv' rdz z by (intro exI [of _ vals] exI [of _ nv] exI [of _ nv']) (simp add: blur_val_def)
qed

theorem blur_sentinel_zero_witness:
  "lattice_ok lattice_one
     \<and> filtered lattice_one [1] 1 0 (- 1) 1 = Inr ([0, 1, 1 / 2, 0], [0, 1, 0, 0])
     \<and> rd [0, 1, 1 / 2, 0 :: real] ((- 1 + 1) * 1 + 0) = Inr 0"
proof -
  have e: "filtered lattice_one [1] 1 0 (- 1) 1 = Inr ([0, 1, 1 / 2, 0], [0, 1, 0, 0])"
    by (simp add: filter_evals filtered_def lattice_one_def)
  from blur_sentinel_zero [OF lattice_ok_one, of 1 0 "- 1" "[1]" 1]
  obtain vals new_values where "filtered lattice_one [1] 1 0 (- 1) 1 = Inr (vals, new_values)"
    "\<forall>k. 0 \<le> k \<and> k < 1 \<longrightarrow> rd vals ((- 1 + 1) * 1 + k) = Inr 0"
    by (auto simp: lattice_one_def range_size_def)
  with e lattice_ok_one show ?thesis by simp
qed

text \<open>
  C5.  On a built lattice, for an input range and an output range that lie within the \<open>N\<close>
  points, with arrays long enough for them: \<^verbatim>\<open>compute\<close> restricted to the output range
  (\<open>out_offset\<close>, \<open>out_size\<close>) and \<^verbatim>\<open>compute\<close> over the full output range, on the same
  input, both return, and slot \<open>i\<close> of the first result equals slot \<open>out_offset + i\<close> of the
  second, in every channel \<open>k\<close>.
\<close>

theorem compute_range_slicing:
  assumes "lattice_ok p" and "0 \<le> value_size"
    and "0 \<le> in_offset" and "0 \<le> range_size p in_offset in_size"
    and "in_offset + range_size p in_offset in_size \<le> N_p p"
    and "range_size p in_offset in_size * value_size \<le> int (length inp)"
    and "0 \<le> out_offset" and "0 \<le> range_size p out_offset out_size"
    and "out_offset + range_size p out_offset out_size \<le> N_p p"
    and "range_size p out_offset out_size * value_size \<le> int (length out1)"
    and "N_p p * value_size \<le> int (length out2)"
  shows "\<exists>r1 r2.
           compute p out1 inp value_size in_offset out_offset in_size out_size = Inr r1
           \<and> compute p out2 inp value_size in_offset 0 in_size (- 1) = Inr r2
           \<and> (\<forall>i k. 0 \<le> i \<and> i < range_size p out_offset out_size \<and> 0 \<le> k \<and> k < value_size
                 \<longrightarrow> r1 ! nat (i * value_size + k) = r2 ! nat ((out_offset + i) * value_size + k))"
proof -
  have N: "0 \<le> N_p p" using assms(1) by (simp add: lattice_ok_def)
  have full: "range_size p 0 (- 1) = N_p p" by (simp add: range_size_def)
  have dn: "0 \<le> d_p p + 1" using assms(1) by (simp add: lattice_ok_def)
  from filtered_total [OF assms(1-6) dn order_refl]
  obtain vals nv where f: "filtered p inp value_size in_offset in_size (d_p p + 1) = Inr (vals, nv)"
    "int (length vals) = (M_p p + 2) * value_size"
    by blast
  from slice_total [where alpha = "alpha_of (d_p p)", OF assms(1,2,7-10) f(2)]
  obtain r1 where r1: "slice p value_size out_offset (range_size p out_offset out_size)
       (alpha_of (d_p p)) vals out1 = Inr r1"
    "\<And>i k. 0 \<le> i \<and> i < range_size p out_offset out_size \<and> 0 \<le> k \<and> k < value_size
        \<Longrightarrow> r1 ! nat (i * value_size + k)
              = slice_val p value_size (alpha_of (d_p p)) vals (out_offset + i) k"
    by blast
  from slice_total [where alpha = "alpha_of (d_p p)" and out_off = 0, OF assms(1,2) order_refl N _ assms(11) f(2)]
  obtain r2 where r2: "slice p value_size 0 (N_p p) (alpha_of (d_p p)) vals out2 = Inr r2"
    "\<And>i k. 0 \<le> i \<and> i < N_p p \<and> 0 \<le> k \<and> k < value_size
        \<Longrightarrow> r2 ! nat (i * value_size + k) = slice_val p value_size (alpha_of (d_p p)) vals (0 + i) k"
    by auto
  have "r1 ! nat (i * value_size + k) = r2 ! nat ((out_offset + i) * value_size + k)"
    if "0 \<le> i \<and> i < range_size p out_offset out_size \<and> 0 \<le> k \<and> k < value_size" for i k
    using r1(2) [OF that] r2(2) [of "out_offset + i" k] that assms(7,9) by simp
  then show ?thesis
    using f(1) r1(1) r2(1) by (simp add: compute_filtered full)
qed

theorem compute_range_slicing_witness:
  "lattice_ok lattice_two
     \<and> compute lattice_two [9] [1, 0] 1 0 1 (- 1) (- 1) = Inr [1 / 6]
     \<and> compute lattice_two [9, 9] [1, 0] 1 0 0 (- 1) (- 1) = Inr [5 / 6, 1 / 6]
     \<and> [1 / 6 :: real] ! nat (0 * 1 + 0) = [5 / 6, 1 / 6] ! nat ((1 + 0) * 1 + 0)"
proof -
  have e1: "compute lattice_two [9] [1, 0] 1 0 1 (- 1) (- 1) = Inr [1 / 6]"
    by (simp add: filter_evals compute_def lattice_two_def)
  have e2: "compute lattice_two [9, 9] [1, 0] 1 0 0 (- 1) (- 1) = Inr [5 / 6, 1 / 6]"
    by (simp add: filter_evals compute_def lattice_two_def)
  from compute_range_slicing [OF lattice_ok_two, of 1 0 "- 1" "[1, 0]" 1 "- 1" "[9]" "[9, 9]"]
  obtain r1 r2 where r: "compute lattice_two [9] [1, 0] 1 0 1 (- 1) (- 1) = Inr r1"
    "compute lattice_two [9, 9] [1, 0] 1 0 0 (- 1) (- 1) = Inr r2"
    "\<forall>i k. 0 \<le> i \<and> i < range_size lattice_two 1 (- 1) \<and> 0 \<le> k \<and> k < 1
        \<longrightarrow> r1 ! nat (i * 1 + k) = r2 ! nat ((1 + i) * 1 + k)"
    by (auto simp: lattice_two_def range_size_def)
  have "range_size lattice_two 1 (- 1) = 1"
    by (simp add: lattice_two_def range_size_def)
  with r(3) have "r1 ! nat (0 * 1 + 0) = r2 ! nat ((1 + 0) * 1 + 0)"
    by (intro r(3) [rule_format]) simp
  with r(1,2) e1 e2 lattice_ok_two show ?thesis by simp
qed

section \<open>Two lattices built by \<open>init\<close>\<close>

text \<open>Unfolding \<^verbatim>\<open>init\<close> on concrete inputs.\<close>

lemmas init_evals = upto.simps eval_nat_numeral new_array_def wr_def rd_def add_at_def

lemma scale_factors_one: "scale_factors 1 = Inr [1 / sqrt 2 * (sqrt (2 / 3) * 2)]"
  by (simp add: init_evals scale_factors_def)

lemma canonical_simplex_one: "canonical_simplex 1 = Inr [0, 0, 1, - 1]"
  by (simp add: init_evals canonical_simplex_def)

lemma sqrt3_scaled: "sqrt 3 * (1 / sqrt 2 * (sqrt (2 / 3) * 2)) = 2"
proof -
  have "sqrt 3 * sqrt (2 / 3) = sqrt 2" by (simp add: real_sqrt_mult [symmetric])
  then have "sqrt 3 * (1 / sqrt 2 * (sqrt (2 / 3) * 2)) = (sqrt 2 / sqrt 2) * 2"
    by (simp add: field_simps)
  then show ?thesis by simp
qed

lemma elevate_zero: "elevate (0 # fs) 0 [s] 1 = Inr [0, 0]"
  by (simp add: init_evals elevate_def)

lemma elevate_sqrt3: "elevate [0, sqrt 3] (1 * 1) [1 / sqrt 2 * (sqrt (2 / 3) * 2)] 1 = Inr [2, - 2]"
  using sqrt3_scaled by (simp add: init_evals elevate_def)

lemma point_zero: 
  "round_elevated [0, 0] 1 = Inr ([0, 0], 0)"
  "rank_residuals [0, 0] [0, 0] 1 = Inr [0, 1]"
  "correct_rank [0, 1] [0, 0] 0 1 = Inr ([0, 1], [0, 0])"
  "barycentric_coords [0, 0] [0, 0] [0, 1] 1 = Inr [1, 0, 0]"
  by (simp_all add: init_evals round_elevated_def c_round_def rank_residuals_def correct_rank_def
      barycentric_coords_def)

lemma point_two: 
  "round_elevated [2, - 2] 1 = Inr ([2, - 2], 0)"
  "rank_residuals [2, - 2] [2, - 2] 1 = Inr [0, 1]"
  "correct_rank [0, 1] [2, - 2] 0 1 = Inr ([0, 1], [2, - 2])"
  "barycentric_coords [2, - 2] [2, - 2] [0, 1] 1 = Inr [1, 0, 0]"
  by (simp_all add: init_evals round_elevated_def c_round_def rank_residuals_def correct_rank_def
      barycentric_coords_def)

lemma init_point_zero:
  "init_point (0 # fs) 1 1 [s] [0, 0, 1, - 1] 0 (HashTable_new 1 n, 0 # 0 # os, 0 # 0 # bs)
     = Inr (\<lparr>key_size = 1, keys = [[0], [1]]\<rparr>, 0 # 1 # os, 1 # 0 # bs)"
  by (simp add: init_evals init_point_def store_corner_def elevate_zero point_zero corner_key_def
      HashTable_find_def HashTable_new_def c_trunc_def)

lemma init_point_sqrt3:
  "init_point [0, sqrt 3] 1 1 [1 / sqrt 2 * (sqrt (2 / 3) * 2)] [0, 0, 1, - 1] 1
       (\<lparr>key_size = 1, keys = [[0], [1]]\<rparr>, [0, 1, 0, 0], [1, 0, 0, 0])
     = Inr (\<lparr>key_size = 1, keys = [[0], [1], [2], [3]]\<rparr>, [0, 1, 2, 3], [1, 0, 1, 0])"
  using elevate_sqrt3
  by (simp add: init_evals init_point_def store_corner_def point_two corner_key_def
      HashTable_find_def c_trunc_def)

lemma init_lattice_one: "init this [0] 1 1 = Inr lattice_one"
  by (simp add: init_evals init_def scale_factors_one canonical_simplex_one init_point_zero
      HashTable_size_def find_neighbors_def HashTable_getKey_def probe_key_def HashTable_find_def
      lattice_one_def)

lemma init_lattice_two: "init this [0, sqrt 3] 1 2 = Inr lattice_two"
  using init_point_sqrt3
  by (simp add: init_evals init_def scale_factors_one canonical_simplex_one init_point_zero
      HashTable_size_def find_neighbors_def HashTable_getKey_def probe_key_def HashTable_find_def
      lattice_two_def)








section \<open>\<^verbatim>\<open>init\<close> in binary32\<close>














lemma f32_zero [simp]: "f32 0 = 0"
  by (simp add: f32_def)







lemma f32_at: "f32 a = c \<Longrightarrow> x = a \<Longrightarrow> f32 x = c"
  by simp

lemma f32_sqrt_at: "f32 (sqrt a) = c \<Longrightarrow> x = a \<Longrightarrow> f32 (sqrt x) = c"
  by simp
















section \<open>Copying a lattice\<close>

text \<open>
  C1.  The copy constructor and the copy assignment copy the two corner tables with their
  \<open>(d+1)*N\<close> entries, and of the neighbour table they copy \<open>(d+1)*N\<close> entries too, where
  \<^verbatim>\<open>init\<close> has allocated \<open>(d+1)*M\<close>.  For the lattice that \<^verbatim>\<open>init\<close> builds from
  the single feature point \<open>0.0\<close> (\<open>N = 1\<close>, \<open>M = 2\<close>, \<open>d = 1\<close>) the neighbour table has 4
  entries and both copies hold the first 2 of them.
\<close>

theorem copy_truncates_neighbors:
  "init Permutohedral_default [0] 1 1 = Inr lattice_one
     \<and> map_option length (blur_neighbors_p lattice_one) = Some 4
     \<and> (d_p lattice_one + 1) * M_p lattice_one = 4
     \<and> Permutohedral_copy lattice_one
         = Inr (lattice_one\<lparr>blur_neighbors_p := Some [Neighbors 1 (- 1), Neighbors (- 1) 0]\<rparr>)
     \<and> Permutohedral_assign (0, Permutohedral_default) (1, lattice_one)
         = Inr (lattice_one\<lparr>blur_neighbors_p := Some [Neighbors 1 (- 1), Neighbors (- 1) 0]\<rparr>)"
  by (simp add: init_lattice_one)
    (simp add: Permutohedral_copy_def Permutohedral_assign_def lattice_one_def copy_table_def
      memcpy_new_def eval_nat_numeral)

section \<open>Elevation\<close>

lemma scale_factors_total:
  assumes "0 \<le> d"
  shows "\<exists>sf. scale_factors d = Inr sf \<and> int (length sf) = d
           \<and> (\<forall>i. 0 \<le> i \<and> i < d \<longrightarrow>
                 sf ! nat i = 1 / sqrt ((real_of_int i + 2) * (real_of_int i + 1))
                                * (sqrt (2 / 3) * real_of_int (d + 1)))"
proof -
  let ?F = "\<lambda>i. 1 / sqrt ((real_of_int i + 2) * (real_of_int i + 1))
                                * (sqrt (2 / 3) * real_of_int (d + 1))"
  let ?z = "replicate (nat d) (0::real)"
  have "for_loop [0..d - 1] (\<lambda>i scale_factor. wr scale_factor i (?F i)) ?z
          = Inr (upd_seg ?z 0 d (\<lambda>i _. ?F i))"
  proof (rule for_loop_seg)
    fix k and s :: "real list" assume "0 \<le> k" "k < d" "length s = length ?z"
    then show "wr s k (?F k) = Inr (s[nat (0 + k) := ?F k])" by (simp add: wr_in)
  qed (use assms in simp_all)
  moreover have "upd_seg ?z 0 d (\<lambda>i _. ?F i) ! nat i = ?F i" if "0 \<le> i \<and> i < d" for i
    using nth_upd_seg_inside [of i d 0 ?z "\<lambda>i _. ?F i"] that by simp
  ultimately show ?thesis
    using assms by (simp add: scale_factors_def new_array_def Let_def)
qed

lemma elevate_total:
  assumes d: "0 \<le> d" and fb: "0 \<le> fbase" "fbase + d \<le> int (length feature)"
    and sf: "d \<le> int (length scale_factor)"
  shows "\<exists>elevated. elevate feature fbase scale_factor d = Inr elevated
           \<and> int (length elevated) = d + 1 \<and> sum_list elevated = 0"
proof -
  let ?z = "replicate (nat (d + 1)) (0::real)"
  let ?body = "\<lambda>j st. case st of (elevated, sm) \<Rightarrow>
              bnd (rd feature (fbase + (j - 1))) (\<lambda>fj.
              bnd (rd scale_factor (j - 1)) (\<lambda>sc.
                let cf = fj * sc in
                bnd (wr elevated j (sm - real_of_int j * cf)) (\<lambda>elevated.
                Inr (elevated, sm + cf))))"
  let ?I = "\<lambda>j (st :: real list \<times> real). int (length (fst st)) = d + 1
              \<and> sum_list (drop (nat j) (fst st)) = - real_of_int j * snd st"
  have "\<exists>st. for_loop (rev [1..d]) ?body (?z, 0) = Inr st \<and> ?I 1 st"
  proof (rule for_loop_down_total [where I = ?I])
    show "?I (d + 1) (?z, 0)" using d by simp
  next
    fix j st assume j: "1 \<le> j" "j \<le> d" and I: "?I (j + 1) st"
    obtain el sm where st: "st = (el, sm)" by (cases st)
    from I st have len: "int (length el) = d + 1"
      and sm: "sum_list (drop (nat (j + 1)) el) = - real_of_int (j + 1) * sm" by simp_all
    let ?cf = "feature ! nat (fbase + (j - 1)) * scale_factor ! nat (j - 1)"
    let ?el' = "el[nat j := sm - real_of_int j * ?cf]"
    have r1: "rd feature (fbase + (j - 1)) = Inr (feature ! nat (fbase + (j - 1)))"
      using j fb by (intro rd_in) simp_all
    have r2: "rd scale_factor (j - 1) = Inr (scale_factor ! nat (j - 1))"
      using j sf by (intro rd_in) simp_all
    have w: "wr el j (sm - real_of_int j * ?cf) = Inr ?el'"
      using j len by (intro wr_in) simp_all
    have lt: "nat j < length el" using j len by linarith
    have sj: "nat (j + 1) = Suc (nat j)" using j by simp
    have "sum_list (drop (nat j) ?el') = sm - real_of_int j * ?cf + sum_list (drop (Suc (nat j)) el)"
      using lt by (simp add: drop_update_here)
    also have "\<dots> = - real_of_int j * (sm + ?cf)"
      using sm sj by (simp add: algebra_simps)
    finally have "?I j (?el', sm + ?cf)" using len by simp
    then show "\<exists>s'. ?body j st = Inr s' \<and> ?I j s'"
      by (simp add: st r1 r2 w Let_def)
  next
    show "1 \<le> d + 1" using d by simp
  qed
  then obtain el sm where l: "for_loop (rev [1..d]) ?body (?z, 0) = Inr (el, sm)"
    and len: "int (length el) = d + 1" and sm: "sum_list (drop (nat 1) el) = - real_of_int 1 * sm"
    by auto
  have lt: "0 < length el" using len d by linarith
  have "sum_list (el[0 := sm]) = sm + sum_list (drop (Suc 0) el)"
    using drop_update_here [OF lt, of sm] by (metis drop0 sum_list.Cons)
  with sm have "sum_list (el[0 := sm]) = 0" by simp
  moreover have "wr el 0 sm = Inr (el[0 := sm])" using lt by (simp add: wr_def)
  ultimately show ?thesis
    using d l len by (simp add: elevate_def new_array_def)
qed

text \<open>
  C8.  For a feature vector of \<open>d\<close> reals, stored from index \<open>fbase\<close> of the feature array,
  and the scale factors \<open>1/sqrt((i+2)(i+1)) * (sqrt(2/3)*(d+1))\<close> that \<^verbatim>\<open>init\<close> computes,
  the elevation returns a vector of \<open>d+1\<close> coordinates whose sum is zero.  The arithmetic is
  that of the reals.
\<close>

theorem elevated_sum_zero:
  assumes "0 \<le> d" and "0 \<le> fbase" and "fbase + d \<le> int (length feature)"
  shows "\<exists>scale_factor elevated.
           scale_factors d = Inr scale_factor
           \<and> (\<forall>i. 0 \<le> i \<and> i < d \<longrightarrow>
                 scale_factor ! nat i = 1 / sqrt ((real_of_int i + 2) * (real_of_int i + 1))
                                          * (sqrt (2 / 3) * real_of_int (d + 1)))
           \<and> elevate feature fbase scale_factor d = Inr elevated
           \<and> int (length elevated) = d + 1
           \<and> sum_list elevated = 0"
proof -
  from scale_factors_total [OF assms(1)]
  obtain sf where sf: "scale_factors d = Inr sf" "int (length sf) = d"
    "\<forall>i. 0 \<le> i \<and> i < d \<longrightarrow>
       sf ! nat i = 1 / sqrt ((real_of_int i + 2) * (real_of_int i + 1))
                      * (sqrt (2 / 3) * real_of_int (d + 1))"
    by blast
  from elevate_total [OF assms, of sf] sf(2)
  obtain el where "elevate feature fbase sf d = Inr el" "int (length el) = d + 1" "sum_list el = 0"
    by auto
  with sf show ?thesis by blast
qed

theorem elevated_sum_zero_witness:
  "(0::int) \<le> 1 \<and> (1::int) + 1 \<le> int (length [0, sqrt 3])
     \<and> scale_factors 1 = Inr [1 / sqrt 2 * (sqrt (2 / 3) * 2)]
     \<and> elevate [0, sqrt 3] 1 [1 / sqrt 2 * (sqrt (2 / 3) * 2)] 1 = Inr [2, - 2]
     \<and> sum_list [2, - 2 :: real] = 0"
proof -
  from elevated_sum_zero [of 1 1 "[0, sqrt 3]"]
  obtain sf el where "scale_factors 1 = Inr sf" "elevate [0, sqrt 3] 1 sf 1 = Inr el"
    "sum_list el = 0"
    by auto
  with scale_factors_one elevate_sqrt3 show ?thesis by simp
qed

section \<open>The simplex of a feature point\<close>

lemma cnt_empty [simp]: "hi < lo \<Longrightarrow> cnt P lo hi = 0"
  by (simp add: cnt_def)

lemma cnt_snoc: "lo \<le> hi + 1 \<Longrightarrow> cnt P lo (hi + 1) = cnt P lo hi + (if P (hi + 1) then 1 else 0)"
  by (simp add: cnt_def upto_rec2 [of lo "hi + 1"])

lemma add_at_in:
  "0 \<le> i \<Longrightarrow> i < int (length xs) \<Longrightarrow> add_at xs i x = Inr (xs[nat i := xs ! nat i + x])"
  by (simp add: add_at_def rd_in wr_in)

lemma rank_residuals_total:
  assumes d: "0 \<le> d" and len: "int (length elevated) = d + 1" "int (length rem0) = d + 1"
  shows "\<exists>rank. rank_residuals elevated rem0 d = Inr rank
           \<and> int (length rank) = d + 1
           \<and> (\<forall>m. 0 \<le> m \<and> m \<le> d \<longrightarrow>
                 rank ! nat m
                   = cnt (\<lambda>b. residual elevated rem0 m < residual elevated rem0 b) (m + 1) d
                     + cnt (\<lambda>a. \<not> residual elevated rem0 a < residual elevated rem0 m) 0 (m - 1))"
proof -
  let ?res = "residual elevated rem0"
  let ?U = "\<lambda>m. cnt (\<lambda>b. ?res m < ?res b) (m + 1) d"
  let ?L = "\<lambda>m k. cnt (\<lambda>a. \<not> ?res a < ?res m) 0 (k - 1)"
  let ?z = "replicate (nat (d + 1)) (0::int)"
  let ?inner = "\<lambda>i j rank.
             bnd (rd elevated j) (\<lambda>ej.
             bnd (rd rem0 j) (\<lambda>rj.
               if elevated ! nat i - rem0 ! nat i < ej - rj
               then add_at rank i 1 else add_at rank j 1))"
  let ?Out = "\<lambda>i (rank :: int list). int (length rank) = d + 1
      \<and> (\<forall>m. 0 \<le> m \<and> m \<le> d \<longrightarrow>
            rank ! nat m = (if m < i then ?U m else 0) + ?L m (min i m))"
  have inner: "\<exists>rank'. for_loop [i + 1..d] (?inner i) rank = Inr rank' \<and> ?Out (i + 1) rank'"
    if i: "0 \<le> i" "i \<le> d - 1" and O: "?Out i rank" for i rank
  proof -
    let ?In = "\<lambda>j (rank :: int list). int (length rank) = d + 1
      \<and> (\<forall>m. 0 \<le> m \<and> m \<le> d \<longrightarrow>
            rank ! nat m = (if m < i then ?U m else 0) + ?L m (min i m)
              + (if m = i then cnt (\<lambda>b. ?res i < ?res b) (i + 1) (j - 1)
                 else if i < m \<and> m < j \<and> \<not> ?res i < ?res m then 1 else 0))"
    have "\<exists>rank'. for_loop [i + 1..d] (?inner i) rank = Inr rank' \<and> ?In (d + 1) rank'"
    proof (rule for_loop_total [where I = ?In])
      show "?In (i + 1) rank" using O by auto
    next
      fix j and r :: "int list" assume j: "i + 1 \<le> j" "j \<le> d" and I: "?In j r"
      from I have l: "int (length r) = d + 1" by simp
      define w where "w = (if ?res i < ?res j then i else j)"
      let ?r' = "r[nat w := r ! nat w + 1]"
      have wb: "0 \<le> w" "w \<le> d" using i j by (auto simp: w_def)
      have ex: "?inner i j r = Inr ?r'"
      proof -
        have "rd elevated j = Inr (elevated ! nat j)" "rd rem0 j = Inr (rem0 ! nat j)"
          using i j len by (simp_all add: rd_in)
        moreover have "add_at r i 1 = Inr (r[nat i := r ! nat i + 1])"
          "add_at r j 1 = Inr (r[nat j := r ! nat j + 1])"
          using i j l by (simp_all add: add_at_in)
        ultimately show ?thesis by (simp add: residual_def w_def)
      qed
      have "?In (j + 1) ?r'"
      proof (intro conjI allI impI)
        show "int (length ?r') = d + 1" using l by simp
      next
        fix m assume m: "0 \<le> m \<and> m \<le> d"
        with I have old: "r ! nat m = (if m < i then ?U m else 0) + ?L m (min i m)
              + (if m = i then cnt (\<lambda>b. ?res i < ?res b) (i + 1) (j - 1)
                 else if i < m \<and> m < j \<and> \<not> ?res i < ?res m then 1 else 0)" by blast
        have lt: "nat m < length r" "nat w < length r" using m wb l by linarith+
        have eqw: "nat m = nat w \<longleftrightarrow> m = w" using m wb by linarith
        have c: "cnt (\<lambda>b. ?res i < ?res b) (i + 1) (j + 1 - 1)
                  = cnt (\<lambda>b. ?res i < ?res b) (i + 1) (j - 1) + (if ?res i < ?res j then 1 else 0)"
          using cnt_snoc [of "i + 1" "j - 1" "\<lambda>b. ?res i < ?res b"] j by simp
        have new: "?r' ! nat m = r ! nat m + (if m = w then 1 else 0)"
          using lt eqw by (auto simp: nth_list_update)
        show "?r' ! nat m = (if m < i then ?U m else 0) + ?L m (min i m)
              + (if m = i then cnt (\<lambda>b. ?res i < ?res b) (i + 1) (j + 1 - 1)
                 else if i < m \<and> m < j + 1 \<and> \<not> ?res i < ?res m then 1 else 0)"
          unfolding new old c using i j m by (auto simp: w_def)
      qed
      with ex show "\<exists>s'. ?inner i j r = Inr s' \<and> ?In (j + 1) s'" by blast
    next
      show "i + 1 \<le> d + 1" using i by simp
    qed
    then obtain rank' where r': "for_loop [i + 1..d] (?inner i) rank = Inr rank'" "?In (d + 1) rank'"
      by blast
    have "?Out (i + 1) rank'"
    proof (intro conjI allI impI)
      show "int (length rank') = d + 1" using r'(2) by simp
    next
      fix m assume m: "0 \<le> m \<and> m \<le> d"
      with r'(2) have v: "rank' ! nat m = (if m < i then ?U m else 0) + ?L m (min i m)
              + (if m = i then cnt (\<lambda>b. ?res i < ?res b) (i + 1) (d + 1 - 1)
                 else if i < m \<and> m < d + 1 \<and> \<not> ?res i < ?res m then 1 else 0)" by blast
      have c: "?L m (i + 1) = ?L m i + (if \<not> ?res i < ?res m then 1 else 0)"
        using cnt_snoc [of 0 "i - 1" "\<lambda>a. \<not> ?res a < ?res m"] i by simp
      consider "m < i" | "m = i" | "i < m" by linarith
      then show "rank' ! nat m = (if m < i + 1 then ?U m else 0) + ?L m (min (i + 1) m)"
      proof cases
        case 1
        then have "min (i + 1) m = m" "min i m = m" by simp_all
        with 1 v show ?thesis by simp
      next
        case 2
        then have "min (i + 1) m = i" "min i m = i" by simp_all
        with 2 v show ?thesis by simp
      next
        case 3
        then have "min (i + 1) m = i + 1" "min i m = i" by simp_all
        with 3 v c m show ?thesis by simp
      qed
    qed
    with r'(1) show ?thesis by blast
  qed
  let ?outer = "\<lambda>i rank. bnd (rd elevated i) (\<lambda>ei. bnd (rd rem0 i) (\<lambda>ri.
               let di = ei - ri in
               for_loop [i + 1..d] (\<lambda>j rank.
                 bnd (rd elevated j) (\<lambda>ej.
                 bnd (rd rem0 j) (\<lambda>rj.
                   if di < ej - rj then add_at rank i 1 else add_at rank j 1))) rank))"
  have "\<exists>rank. for_loop [0..d - 1] ?outer ?z = Inr rank
          \<and> ?Out (d - 1 + 1) rank"
  proof (rule for_loop_total [where I = ?Out])
    show "?Out 0 ?z" using d by auto
  next
    fix i and r :: "int list" assume i: "0 \<le> i" "i \<le> d - 1" and O: "?Out i r"
    have "rd elevated i = Inr (elevated ! nat i)" "rd rem0 i = Inr (rem0 ! nat i)"
      using i len by (simp_all add: rd_in)
    with inner [OF i O]
    show "\<exists>s'. ?outer i r = Inr s' \<and> ?Out (i + 1) s'"
      by (simp add: Let_def)
  next
    show "0 \<le> d - 1 + 1" using d by simp
  qed
  then obtain rank where rk: "rank_residuals elevated rem0 d = Inr rank" and O: "?Out d rank"
    using d by (auto simp: rank_residuals_def new_array_def)
  have "rank ! nat m = ?U m + ?L m m" if m: "0 \<le> m \<and> m \<le> d" for m
  proof -
    from O m have v: "rank ! nat m = (if m < d then ?U m else 0) + ?L m (min d m)" by blast
    have "min d m = m" using m by simp
    moreover have "?U m = 0" if "\<not> m < d" using that m by simp
    ultimately show ?thesis using v by auto
  qed
  with rk O show ?thesis by auto
qed



lemma c_round_near: "\<bar>real_of_int (c_round x) - x\<bar> \<le> 1 / 2"
proof (cases "0 \<le> x")
  case True
  have "real_of_int \<lfloor>x + 1 / 2\<rfloor> \<le> x + 1 / 2" "x + 1 / 2 < real_of_int \<lfloor>x + 1 / 2\<rfloor> + 1"
    by (rule of_int_floor_le, rule real_of_int_floor_add_one_gt)
  moreover have "c_round x = \<lfloor>x + 1 / 2\<rfloor>" using True by (simp add: c_round_def)
  ultimately show ?thesis by linarith
next
  case False
  have "real_of_int \<lceil>x - 1 / 2\<rceil> - 1 < x - 1 / 2" "x - 1 / 2 \<le> real_of_int \<lceil>x - 1 / 2\<rceil>"
    using ceiling_correct [of "x - 1 / 2"] by simp_all
  moreover have "c_round x = \<lceil>x - 1 / 2\<rceil>" using False by (simp add: c_round_def)
  ultimately show ?thesis by linarith
qed

lemma round_elevated_total:
  assumes d: "0 \<le> d" and len: "int (length elevated) = d + 1"
  shows "\<exists>rem0 sum_rd. round_elevated elevated d = Inr (rem0, sum_rd)
           \<and> int (length rem0) = d + 1
           \<and> (\<forall>i. 0 \<le> i \<and> i \<le> d \<longrightarrow>
                 rem0 ! nat i = real_of_int (c_round (1 / real_of_int (d + 1) * elevated ! nat i))
                                  * real_of_int (d + 1))
           \<and> \<bar>real_of_int sum_rd - 1 / real_of_int (d + 1) * sum_list elevated\<bar>
                 \<le> real_of_int (d + 1) / 2"
proof -
  let ?down = "1 / real_of_int (d + 1)"
  let ?up = "real_of_int (d + 1)"
  let ?z = "replicate (nat (d + 1)) (0::real)"
  let ?body = "\<lambda>i st. case st of (rem0, sum_rd) \<Rightarrow>
            bnd (rd elevated i) (\<lambda>e.
              let rd' = c_round (?down * e) in
              bnd (wr rem0 i (real_of_int rd' * ?up)) (\<lambda>rem0.
              Inr (rem0, sum_rd + rd')))"
  let ?I = "\<lambda>i (st :: real list \<times> int). int (length (fst st)) = d + 1
      \<and> (\<forall>i'. 0 \<le> i' \<and> i' < i \<longrightarrow>
             fst st ! nat i' = real_of_int (c_round (?down * elevated ! nat i')) * ?up)
      \<and> \<bar>real_of_int (snd st) - ?down * sum_list (take (nat i) elevated)\<bar> \<le> real_of_int i / 2"
  have "\<exists>st. for_loop [0..d] ?body (?z, 0) = Inr st \<and> ?I (d + 1) st"
  proof (rule for_loop_total [where I = ?I])
    show "?I 0 (?z, 0)" using d by simp
  next
    fix i st assume i: "0 \<le> i" "i \<le> d" and I: "?I i st"
    obtain rem0 s where st: "st = (rem0, s)" by (cases st)
    from I st have l: "int (length rem0) = d + 1"
      and old: "\<And>i'. 0 \<le> i' \<and> i' < i \<Longrightarrow>
             rem0 ! nat i' = real_of_int (c_round (?down * elevated ! nat i')) * ?up"
      and sm: "\<bar>real_of_int s - ?down * sum_list (take (nat i) elevated)\<bar> \<le> real_of_int i / 2"
      by simp_all
    let ?e = "elevated ! nat i"
    let ?r = "c_round (?down * ?e)"
    let ?rem0' = "rem0[nat i := real_of_int ?r * ?up]"
    have r: "rd elevated i = Inr ?e" using i len by (intro rd_in) simp_all
    have w: "wr rem0 i (real_of_int ?r * ?up) = Inr ?rem0'" using i l by (intro wr_in) simp_all
    have lt: "nat i < length elevated" "nat i < length rem0" using i len l by linarith+
    have tk: "take (nat (i + 1)) elevated = take (nat i) elevated @ [?e]"
      using lt(1) i by (simp add: nat_add_distrib take_Suc_conv_app_nth)
    have "\<bar>real_of_int (s + ?r) - ?down * sum_list (take (nat (i + 1)) elevated)\<bar>
        = \<bar>(real_of_int s - ?down * sum_list (take (nat i) elevated))
            + (real_of_int ?r - ?down * ?e)\<bar>"
      unfolding tk by (simp add: algebra_simps)
    also have "\<dots> \<le> real_of_int i / 2 + 1 / 2"
      using sm c_round_near [of "?down * ?e"] by linarith
    finally have s': "\<bar>real_of_int (s + ?r) - ?down * sum_list (take (nat (i + 1)) elevated)\<bar>
        \<le> real_of_int (i + 1) / 2" by simp
    have new: "?rem0' ! nat i' = real_of_int (c_round (?down * elevated ! nat i')) * ?up"
      if "0 \<le> i' \<and> i' < i + 1" for i'
    proof (cases "i' = i")
      case True
      with lt show ?thesis by simp
    next
      case False
      with that have "i' < i" "nat i' \<noteq> nat i" by linarith+
      with that old [of i'] show ?thesis by simp
    qed
    have "?I (i + 1) (?rem0', s + ?r)"
    proof (intro conjI allI impI)
      show "int (length (fst (?rem0', s + ?r))) = d + 1" using l by simp
      show "\<bar>real_of_int (snd (?rem0', s + ?r))
              - ?down * sum_list (take (nat (i + 1)) elevated)\<bar> \<le> real_of_int (i + 1) / 2"
        using s' by simp
      fix i' assume "0 \<le> i' \<and> i' < i + 1"
      from new [OF this]
      show "fst (?rem0', s + ?r) ! nat i'
              = real_of_int (c_round (?down * elevated ! nat i')) * ?up" by simp
    qed
    moreover have "?body i st = Inr (?rem0', s + ?r)"
      by (simp only: st prod.case r bnd_Inr Let_def w)
    ultimately show "\<exists>s'. ?body i st = Inr s' \<and> ?I (i + 1) s'"
      by blast
  next
    show "0 \<le> d + 1" using d by simp
  qed
  then obtain rem0 s where "for_loop [0..d] ?body (?z, 0) = Inr (rem0, s)" and I: "?I (d + 1) (rem0, s)"
    by auto
  moreover have "take (nat (d + 1)) elevated = elevated" using len by simp
  ultimately show ?thesis
    using d by (simp add: round_elevated_def new_array_def Let_def)
qed




lemma correct_rank_total:
  assumes d: "0 \<le> d" and len: "int (length rank) = d + 1" "int (length rem0) = d + 1"
  shows "\<exists>rank' rem0'. correct_rank rank rem0 sum_rd d = Inr (rank', rem0')
           \<and> int (length rank') = d + 1 \<and> int (length rem0') = d + 1
           \<and> (\<forall>i. 0 \<le> i \<and> i \<le> d \<longrightarrow>
                 rank' ! nat i = wrap_rank d (rank ! nat i + sum_rd)
                 \<and> rem0' ! nat i = rem0 ! nat i + wrap_rem0 d (rank ! nat i + sum_rd))"
proof -
  let ?body = "\<lambda>i st. case st of (rank, rem0) \<Rightarrow>
         bnd (add_at rank i sum_rd) (\<lambda>rank.
         bnd (rd rank i) (\<lambda>r.
           if r < 0 then
             bnd (add_at rank i (d + 1)) (\<lambda>rank.
             bnd (add_at rem0 i (real_of_int (d + 1))) (\<lambda>rem0. Inr (rank, rem0)))
           else if r > d then
             bnd (add_at rank i (- (d + 1))) (\<lambda>rank.
             bnd (add_at rem0 i (- real_of_int (d + 1))) (\<lambda>rem0. Inr (rank, rem0)))
           else Inr (rank, rem0)))"
  let ?I = "\<lambda>i (st :: int list \<times> real list).
      int (length (fst st)) = d + 1 \<and> int (length (snd st)) = d + 1
      \<and> (\<forall>m. 0 \<le> m \<and> m \<le> d \<longrightarrow>
            fst st ! nat m = (if m < i then wrap_rank d (rank ! nat m + sum_rd) else rank ! nat m)
            \<and> snd st ! nat m
                = rem0 ! nat m + (if m < i then wrap_rem0 d (rank ! nat m + sum_rd) else 0))"
  have "\<exists>st. for_loop [0..d] ?body (rank, rem0) = Inr st \<and> ?I (d + 1) st"
  proof (rule for_loop_total [where I = ?I])
    show "?I 0 (rank, rem0)" using len by simp
  next
    fix i st assume i: "0 \<le> i" "i \<le> d" and I: "?I i st"
    obtain rk rm where st: "st = (rk, rm)" by (cases st)
    from I st have l: "int (length rk) = d + 1" "int (length rm) = d + 1"
      and old: "\<And>m. 0 \<le> m \<and> m \<le> d \<Longrightarrow>
            rk ! nat m = (if m < i then wrap_rank d (rank ! nat m + sum_rd) else rank ! nat m)
            \<and> rm ! nat m = rem0 ! nat m + (if m < i then wrap_rem0 d (rank ! nat m + sum_rd) else 0)"
      by simp_all
    define r where "r = rank ! nat i + sum_rd"
    have cur: "rk ! nat i = rank ! nat i" "rm ! nat i = rem0 ! nat i"
      using old [of i] i by simp_all
    let ?rk' = "rk[nat i := wrap_rank d r]"
    let ?rm' = "rm[nat i := rem0 ! nat i + wrap_rem0 d r]"
    have lt: "nat i < length rk" "nat i < length rm" using i l by linarith+
    have a1: "add_at rk i sum_rd = Inr (rk[nat i := r])"
      using i l cur by (simp add: add_at_in r_def)
    have a2: "rd (rk[nat i := r]) i = Inr r" using i l lt by (simp add: rd_in)
    have a3: "add_at (rk[nat i := r]) i x = Inr (rk[nat i := r + x])" for x
      using i l lt by (simp add: add_at_in)
    have a4: "add_at rm i x = Inr (rm[nat i := rem0 ! nat i + x])" for x
      using i l cur by (simp add: add_at_in)
    have a5: "rm[nat i := rem0 ! nat i + 0] = rm" using cur by (simp add: list_update_same_conv lt)
    have ex: "?body i st = Inr (?rk', ?rm')"
    proof -
      consider "r < 0" | "r > d" | "0 \<le> r \<and> r \<le> d" by linarith
      then show ?thesis
      proof cases
        case 1
        then show ?thesis
          by (simp only: st prod.case a1 a2 a3 a4 bnd_Inr wrap_rank_def wrap_rem0_def if_True)
      next
        case 2
        with d have "\<not> r < 0" by simp
        with 2 have "wrap_rank d r = r + - (d + 1)" "wrap_rem0 d r = - real_of_int (d + 1)"
          by (simp_all add: wrap_rank_def wrap_rem0_def)
        with 2 \<open>\<not> r < 0\<close> show ?thesis
          by (simp only: st prod.case a1 a2 a3 a4 bnd_Inr if_True if_False)
      next
        case 3
        then have "\<not> r < 0" "\<not> r > d" by simp_all
        moreover from this have "wrap_rank d r = r" "wrap_rem0 d r = 0"
          by (simp_all add: wrap_rank_def wrap_rem0_def)
        ultimately show ?thesis
          by (simp only: st prod.case a1 a2 bnd_Inr if_False a5)
      qed
    qed
    have "?I (i + 1) (?rk', ?rm')"
    proof (intro conjI allI impI)
      fix m assume m: "0 \<le> m \<and> m \<le> d"
      have e: "nat m = nat i \<longleftrightarrow> m = i" using m i by linarith
      show "fst (?rk', ?rm') ! nat m
              = (if m < i + 1 then wrap_rank d (rank ! nat m + sum_rd) else rank ! nat m)"
        using old [OF m] lt e by (auto simp: nth_list_update r_def)
      show "snd (?rk', ?rm') ! nat m
              = rem0 ! nat m + (if m < i + 1 then wrap_rem0 d (rank ! nat m + sum_rd) else 0)"
        using old [OF m] lt e by (auto simp: nth_list_update r_def)
    qed (use l in simp_all)
    with ex show "\<exists>s'. ?body i st = Inr s' \<and> ?I (i + 1) s'" by blast
  next
    show "0 \<le> d + 1" using d by simp
  qed
  then show ?thesis by (auto simp: correct_rank_def)
qed




lemma bary_acc_0 [simp]: "bary_acc d rank v 0 m = 0"
  by (simp add: bary_acc_def)

lemma bary_acc_Suc:
  "0 \<le> i \<Longrightarrow> bary_acc d rank v (i + 1) m
     = bary_acc d rank v i m + ((if d - rank ! nat i = m then v i else 0)
                                  - (if d - rank ! nat i + 1 = m then v i else 0))"
  by (simp add: bary_acc_def upto_rec2 [of 0 i])

lemma sum_list_add_at:
  fixes xs :: "real list"
  shows "k < length xs \<Longrightarrow> sum_list (xs[k := xs ! k + x]) = sum_list xs + x"
  by (induction xs arbitrary: k) (auto split: nat.splits)

lemma barycentric_coords_total:
  assumes d: "0 \<le> d"
    and len: "int (length elevated) = d + 1" "int (length rem0) = d + 1" "int (length rank) = d + 1"
    and rk: "\<And>i. 0 \<le> i \<and> i \<le> d \<Longrightarrow> 0 \<le> rank ! nat i \<and> rank ! nat i \<le> d"
  shows "\<exists>b. barycentric_coords elevated rem0 rank d = Inr b
           \<and> int (length b) = d + 2
           \<and> sum_list (take (nat (d + 1)) b) = 1
           \<and> (\<forall>m. 0 \<le> m \<and> m \<le> d \<longrightarrow>
                 b ! nat m
                   = bary_acc d rank (\<lambda>i. (elevated ! nat i - rem0 ! nat i) * (1 / real_of_int (d + 1)))
                       (d + 1) m
                     + (if m = 0
                        then 1 + bary_acc d rank
                                   (\<lambda>i. (elevated ! nat i - rem0 ! nat i) * (1 / real_of_int (d + 1)))
                                   (d + 1) (d + 1)
                        else 0))"
proof -
  let ?down = "1 / real_of_int (d + 1)"
  let ?v = "\<lambda>i. (elevated ! nat i - rem0 ! nat i) * ?down"
  let ?z = "replicate (nat (d + 2)) (0::real)"
  let ?body = "\<lambda>i barycentric.
             bnd (rd elevated i) (\<lambda>e.
             bnd (rd rem0 i) (\<lambda>r0.
               let v = (e - r0) * ?down in
               bnd (rd rank i) (\<lambda>r.
               bnd (add_at barycentric (d - r) v) (\<lambda>barycentric.
               add_at barycentric (d - r + 1) (- v)))))"
  let ?I = "\<lambda>i (b :: real list). int (length b) = d + 2 \<and> sum_list b = 0
      \<and> (\<forall>m. 0 \<le> m \<and> m \<le> d + 1 \<longrightarrow> b ! nat m = bary_acc d rank ?v i m)"
  have "\<exists>b. for_loop [0..d] ?body ?z = Inr b \<and> ?I (d + 1) b"
  proof (rule for_loop_total [where I = ?I])
    show "?I 0 ?z" using d by (simp add: sum_list_replicate)
  next
    fix i and b :: "real list" assume i: "0 \<le> i" "i \<le> d" and I: "?I i b"
    from I have l: "int (length b) = d + 2" and s0: "sum_list b = 0"
      and old: "\<And>m. 0 \<le> m \<and> m \<le> d + 1 \<Longrightarrow> b ! nat m = bary_acc d rank ?v i m" by simp_all
    define r where "r = rank ! nat i"
    have r: "0 \<le> r" "r \<le> d" using rk [of i] i by (simp_all add: r_def)
    define p where "p = nat (d - r)"
    have p: "nat (d - r + 1) = Suc p" "Suc p < length b" using r l by (simp_all add: p_def)
    let ?b1 = "b[p := b ! p + ?v i]"
    let ?b2 = "?b1[Suc p := ?b1 ! Suc p + - ?v i]"
    have ex: "?body i b = Inr ?b2"
    proof -
      have "rd elevated i = Inr (elevated ! nat i)" "rd rem0 i = Inr (rem0 ! nat i)"
        "rd rank i = Inr r"
        using i len by (simp_all add: rd_in r_def)
      moreover have "add_at b (d - r) (?v i) = Inr ?b1"
        using r l by (simp add: add_at_in p_def)
      moreover have "add_at ?b1 (d - r + 1) (- ?v i) = Inr ?b2"
        using r l p by (simp add: add_at_in)
      ultimately show ?thesis by (simp only: bnd_Inr Let_def)
    qed
    have "?I (i + 1) ?b2"
    proof (intro conjI allI impI)
      show "int (length ?b2) = d + 2" using l by simp
      have "sum_list ?b1 = sum_list b + ?v i" using p by (intro sum_list_add_at) simp
      moreover have "sum_list ?b2 = sum_list ?b1 + - ?v i" using p by (intro sum_list_add_at) simp
      ultimately show "sum_list ?b2 = 0" using s0 by simp
    next
      fix m assume m: "0 \<le> m \<and> m \<le> d + 1"
      have e1: "d - rank ! nat i = m \<longleftrightarrow> nat m = p" using m r by (auto simp: p_def r_def)
      have e2: "d - rank ! nat i + 1 = m \<longleftrightarrow> nat m = Suc p" using m r by (auto simp: p_def r_def)
      have lt: "nat m < length b" using m l by linarith
      show "?b2 ! nat m = bary_acc d rank ?v (i + 1) m"
        unfolding bary_acc_Suc [OF i(1)] e1 e2 using old [OF m] lt p
        by (auto simp: nth_list_update)
    qed
    with ex show "\<exists>s'. ?body i b = Inr s' \<and> ?I (i + 1) s'" by blast
  next
    show "0 \<le> d + 1" using d by simp
  qed
  then obtain b where b: "for_loop [0..d] ?body ?z = Inr b" and l: "int (length b) = d + 2"
    and s0: "sum_list b = 0"
    and v: "\<And>m. 0 \<le> m \<and> m \<le> d + 1 \<Longrightarrow> b ! nat m = bary_acc d rank ?v (d + 1) m"
    by blast
  define n where "n = nat (d + 1)"
  have n: "n < length b" "length b = Suc n" "0 < n \<or> n = 0" using l d by (auto simp: n_def)
  let ?b' = "b[0 := b ! 0 + (1 + b ! n)]"
  have fin: "barycentric_coords elevated rem0 rank d = Inr ?b'"
  proof -
    have "new_array (d + 2) (0::real) = Inr ?z" using d by (simp add: new_array_def)
    moreover have "rd b (d + 1) = Inr (b ! n)" using l d by (simp add: rd_in n_def)
    moreover have "add_at b 0 (1 + b ! n) = Inr ?b'" using l d by (simp add: add_at_in)
    moreover note b [unfolded Let_def]
    ultimately show ?thesis
      unfolding barycentric_coords_def Let_def by (simp only: bnd_Inr)
  qed
  have "b = take n b @ [b ! n]" using n by (metis take_Suc_conv_app_nth take_all order_refl)
  then have "sum_list b = sum_list (take n b) + b ! n" by (metis sum_list.append sum_list.Cons sum_list.Nil add.right_neutral)
  with s0 have tk: "sum_list (take n b) = - b ! n" by simp
  have t0: "take n b ! 0 = b ! 0" "0 < length (take n b)" using d n by (simp_all add: n_def)
  have "take n ?b' = (take n b)[0 := take n b ! 0 + (1 + b ! n)]"
    unfolding t0 by (simp add: take_update_swap)
  then have "sum_list (take n ?b') = sum_list (take n b) + (1 + b ! n)"
    using t0(2) by (simp only: sum_list_add_at)
  with tk have one: "sum_list (take n ?b') = 1" by simp
  have val: "?b' ! nat m = bary_acc d rank ?v (d + 1) m
                     + (if m = 0 then 1 + bary_acc d rank ?v (d + 1) (d + 1) else 0)"
    if m: "0 \<le> m \<and> m \<le> d" for m
  proof -
    have "b ! n = bary_acc d rank ?v (d + 1) (d + 1)" using v [of "d + 1"] d by (simp add: n_def)
    moreover have "b ! nat m = bary_acc d rank ?v (d + 1) m" using v [of m] m by simp
    moreover have "nat m = 0 \<longleftrightarrow> m = 0" using m by linarith
    ultimately show ?thesis using n by (auto simp: nth_list_update)
  qed
  show ?thesis
  proof (intro exI conjI allI impI)
    show "barycentric_coords elevated rem0 rank d = Inr ?b'" by (rule fin)
    show "int (length ?b') = d + 2" using l by simp
    show "sum_list (take (nat (d + 1)) ?b') = 1" using one by (simp only: n_def)
    fix m assume "0 \<le> m \<and> m \<le> d"
    then show "?b' ! nat m = bary_acc d rank ?v (d + 1) m
                     + (if m = 0 then 1 + bary_acc d rank ?v (d + 1) (d + 1) else 0)"
      by (rule val)
  qed
qed




lemma sum_pick:
  fixes rk :: "int \<Rightarrow> int" and v :: "int \<Rightarrow> real"
  assumes inj: "\<And>i j. i \<in> {0..d} \<Longrightarrow> j \<in> {0..d} \<Longrightarrow> rk i = rk j \<Longrightarrow> i = j"
    and c: "c \<in> {0..d}"
  shows "(\<Sum>x\<leftarrow>[0..d]. if rk x = rk c then v x else 0) = v c"
proof -
  have "(\<Sum>x\<leftarrow>[0..d]. if rk x = rk c then v x else 0)
          = (\<Sum>x\<in>{0..d}. if rk x = rk c then v x else 0)"
    by (simp add: sum_list_distinct_conv_sum_set)
  also have "\<dots> = (\<Sum>x\<in>{0..d}. if x = c then v x else 0)"
    using inj c by (intro sum.cong) auto
  also have "\<dots> = v c" using c by simp
  finally show ?thesis .
qed

lemma sum_none:
  fixes rk :: "int \<Rightarrow> int" and v :: "int \<Rightarrow> real"
  assumes "\<And>x. x \<in> {0..d} \<Longrightarrow> rk x \<noteq> q"
  shows "(\<Sum>x\<leftarrow>[0..d]. if rk x = q then v x else 0) = 0"
proof -
  have "(\<Sum>x\<leftarrow>[0..d]. if rk x = q then v x else 0)
          = (\<Sum>x\<in>{0..d}. if rk x = q then v x else 0)"
    by (simp add: sum_list_distinct_conv_sum_set)
  also have "\<dots> = (\<Sum>x\<in>{0..d}. 0)" using assms by (intro sum.cong) auto
  finally show ?thesis by simp
qed

lemma bary_acc_split:
  "bary_acc d rank v (d + 1) m
     = (\<Sum>c\<leftarrow>[0..d]. if rank ! nat c = d - m then v c else 0)
       - (\<Sum>c\<leftarrow>[0..d]. if rank ! nat c = d - m + 1 then v c else 0)"
proof -
  have e: "(d - rank ! nat c = m) = (rank ! nat c = d - m)"
    "(d - rank ! nat c + 1 = m) = (rank ! nat c = d - m + 1)" for c by auto
  show ?thesis
    unfolding bary_acc_def e by (simp add: sum_list_subtractf)
qed

lemma rank_onto:
  fixes rk :: "int \<Rightarrow> int"
  assumes d: "0 \<le> d"
    and inj: "\<And>i j. i \<in> {0..d} \<Longrightarrow> j \<in> {0..d} \<Longrightarrow> rk i = rk j \<Longrightarrow> i = j"
    and rng: "\<And>i. i \<in> {0..d} \<Longrightarrow> rk i \<in> {0..d}"
    and q: "q \<in> {0..d}"
  shows "\<exists>c\<in>{0..d}. rk c = q"
proof -
  have "inj_on rk {0..d}" using inj by (auto simp: inj_on_def)
  then have "card (rk ` {0..d}) = card {0..d}" by (rule card_image)
  moreover have "rk ` {0..d} \<subseteq> {0..d}" using rng by auto
  ultimately have "rk ` {0..d} = {0..d}" by (intro card_subset_eq) simp_all
  with q have "q \<in> rk ` {0..d}" by simp
  then show ?thesis by (auto simp: image_iff)
qed

lemma weights_nonneg:
  fixes v :: "int \<Rightarrow> real"
  assumes d: "0 \<le> d"
    and inj: "\<And>i j. i \<in> {0..d} \<Longrightarrow> j \<in> {0..d} \<Longrightarrow> rank ! nat i = rank ! nat j \<Longrightarrow> i = j"
    and rng: "\<And>i. i \<in> {0..d} \<Longrightarrow> rank ! nat i \<in> {0..d}"
    and sorted: "\<And>i j. i \<in> {0..d} \<Longrightarrow> j \<in> {0..d} \<Longrightarrow> rank ! nat i < rank ! nat j \<Longrightarrow> v j \<le> v i"
    and spread: "\<And>i j. i \<in> {0..d} \<Longrightarrow> j \<in> {0..d} \<Longrightarrow> v i - v j \<le> 1"
    and m: "0 \<le> m" "m \<le> d"
  shows "0 \<le> bary_acc d rank v (d + 1) m
              + (if m = 0 then 1 + bary_acc d rank v (d + 1) (d + 1) else 0)"
proof -
  let ?rk = "\<lambda>c. rank ! nat c"
  have pick: "(\<Sum>x\<leftarrow>[0..d]. if ?rk x = ?rk c then v x else 0) = v c" if "c \<in> {0..d}" for c
    using sum_pick [of d ?rk c v] inj that by blast
  have none: "(\<Sum>x\<leftarrow>[0..d]. if ?rk x = q then v x else 0) = 0" if "q \<notin> {0..d}" for q
    using sum_none [of d ?rk q v] rng that by blast
  have onto: "\<exists>c\<in>{0..d}. ?rk c = q" if "q \<in> {0..d}" for q
    using rank_onto [of d ?rk q] d inj rng that by blast
  show ?thesis
  proof (cases "m = 0")
    case True
    from onto [of d] d obtain c1 where c1: "c1 \<in> {0..d}" "?rk c1 = d" by auto
    from onto [of 0] d obtain c2 where c2: "c2 \<in> {0..d}" "?rk c2 = 0" by auto
    have "bary_acc d rank v (d + 1) 0 = v c1"
      using pick [OF c1(1)] none [of "d + 1"] c1(2) by (simp add: bary_acc_split)
    moreover have "bary_acc d rank v (d + 1) (d + 1) = - v c2"
      using pick [OF c2(1)] none [of "- 1"] c2(2) by (simp add: bary_acc_split)
    moreover have "v c2 - v c1 \<le> 1" using spread c1 c2 by blast
    ultimately show ?thesis using True by simp
  next
    case False
    with m have q: "d - m \<in> {0..d}" "d - m + 1 \<in> {0..d}" by auto
    from onto [OF q(1)] obtain c1 where c1: "c1 \<in> {0..d}" "?rk c1 = d - m" by auto
    from onto [OF q(2)] obtain c2 where c2: "c2 \<in> {0..d}" "?rk c2 = d - m + 1" by auto
    have "bary_acc d rank v (d + 1) m = v c1 - v c2"
      using pick [OF c1(1)] pick [OF c2(1)] c1(2) c2(2) by (simp add: bary_acc_split)
    moreover have "v c2 \<le> v c1" using sorted [OF c1(1) c2(1)] c1(2) c2(2) by simp
    ultimately show ?thesis using False by simp
  qed
qed




lemma cnt_card: "cnt P lo hi = int (card {x \<in> {lo..hi}. P x})"
proof -
  have "distinct (filter P [lo..hi])" by simp
  then have "card (set (filter P [lo..hi])) = length (filter P [lo..hi])" by (rule distinct_card)
  moreover have "set (filter P [lo..hi]) = {x \<in> {lo..hi}. P x}" by auto
  ultimately show ?thesis by (simp add: cnt_def)
qed

lemma rank_count_card:
  assumes "0 \<le> m" "m \<le> d"
  shows "rank_count res d m = int (card {j \<in> {0..d}. beats res j m})"
proof -
  let ?A = "{b \<in> {m + 1..d}. res m < res b}" and ?B = "{a \<in> {0..m - 1}. \<not> res a < res m}"
  have "res m < res x \<Longrightarrow> x \<noteq> m" for x by auto
  then have "{j \<in> {0..d}. beats res j m} = ?A \<union> ?B"
    using assms by (fastforce simp: beats_def)
  moreover have "?A \<inter> ?B = {}" by auto
  moreover have "finite ?A"
    by (rule finite_subset [of _ "{m + 1..d}"]) auto
  moreover have "finite ?B"
    by (rule finite_subset [of _ "{0..m - 1}"]) auto
  ultimately have "card {j \<in> {0..d}. beats res j m} = card ?A + card ?B"
    by (simp add: card_Un_disjoint)
  then show ?thesis by (simp add: rank_count_def cnt_card)
qed

lemma rank_count_mono:
  assumes i: "0 \<le> i" "i \<le> d" and j: "0 \<le> j" "j \<le> d" and b: "beats res j i"
  shows "rank_count res d j < rank_count res d i"
proof -
  have "{k \<in> {0..d}. beats res k j} \<subset> {k \<in> {0..d}. beats res k i}"
  proof
    show "{k \<in> {0..d}. beats res k j} \<subseteq> {k \<in> {0..d}. beats res k i}"
      using b by (auto simp: beats_def)
    have "j \<in> {k \<in> {0..d}. beats res k i}" using j b by simp
    moreover have "j \<notin> {k \<in> {0..d}. beats res k j}" by (simp add: beats_def)
    ultimately show "{k \<in> {0..d}. beats res k j} \<noteq> {k \<in> {0..d}. beats res k i}" by blast
  qed
  moreover have "finite {k \<in> {0..d}. beats res k i}"
    by (rule finite_subset [of _ "{0..d}"]) auto
  ultimately have "card {k \<in> {0..d}. beats res k j} < card {k \<in> {0..d}. beats res k i}"
    by (rule psubset_card_mono [rotated])
  then show ?thesis using i j by (simp add: rank_count_card)
qed

lemma rank_count_range:
  assumes m: "0 \<le> m" "m \<le> d"
  shows "0 \<le> rank_count res d m" "rank_count res d m \<le> d"
proof -
  show "0 \<le> rank_count res d m" by (simp add: rank_count_def cnt_def)
  have "{j \<in> {0..d}. beats res j m} \<subseteq> {0..d} - {m}" by (auto simp: beats_def)
  then have "card {j \<in> {0..d}. beats res j m} \<le> card ({0..d} - {m})"
    by (intro card_mono) (simp_all del: Collect_conj_eq)
  also have "\<dots> = nat d" using m by simp
  finally show "rank_count res d m \<le> d" using m by (simp add: rank_count_card)
qed

lemma rank_count_sorted:
  assumes "0 \<le> i" "i \<le> d" "0 \<le> j" "j \<le> d" "rank_count res d i < rank_count res d j"
  shows "res j \<le> res i"
proof (rule ccontr)
  assume "\<not> res j \<le> res i"
  then have "beats res j i" by (simp add: beats_def)
  from rank_count_mono [OF assms(1-4) this] assms(5) show False by simp
qed

lemma rank_count_inj:
  assumes "0 \<le> i" "i \<le> d" "0 \<le> j" "j \<le> d" "rank_count res d i = rank_count res d j"
  shows "i = j"
proof (rule ccontr)
  assume "i \<noteq> j"
  then have "beats res j i \<or> beats res i j" by (auto simp: beats_def)
  then show False
  proof
    assume "beats res j i"
    from rank_count_mono [OF assms(1-4) this] assms(5) show False by simp
  next
    assume "beats res i j"
    from rank_count_mono [OF assms(3,4,1,2) this] assms(5) show False by simp
  qed
qed

text \<open>The plane correction keeps the ranks a sorted enumeration of the coordinates.\<close>

lemma wrap_facts:
  fixes v0 :: "int \<Rightarrow> real"
  assumes d: "0 \<le> d" and s: "- (d + 1) \<le> 2 * s" "2 * s \<le> d + 1"
    and ri: "0 \<le> r0 i" "r0 i \<le> d" and rj: "0 \<le> r0 j" "r0 j \<le> d"
    and sorted: "r0 i < r0 j \<Longrightarrow> v0 j \<le> v0 i" "r0 j < r0 i \<Longrightarrow> v0 i \<le> v0 j"
    and spread: "v0 i - v0 j \<le> 1" "v0 j - v0 i \<le> 1"
  defines "r' \<equiv> \<lambda>c. wrap_rank d (r0 c + s)"
    and "v' \<equiv> \<lambda>c. v0 c - wrap_rem0 d (r0 c + s) / real_of_int (d + 1)"
  shows "0 \<le> r' i" "r' i \<le> d"
    and "r' i = r' j \<Longrightarrow> r0 i = r0 j"
    and "r' i < r' j \<Longrightarrow> v' j \<le> v' i"
    and "v' i - v' j \<le> 1"
proof -
  have nz: "real_of_int (d + 1) \<noteq> 0" using d by simp
  have sh: "wrap_rem0 d r / real_of_int (d + 1) = (if r < 0 then 1 else if r > d then - 1 else 0)" for r
    using nz by (simp add: wrap_rem0_def divide_eq_eq del: of_int_add)
  have v': "v' c = v0 c - (if r0 c + s < 0 then 1 else if r0 c + s > d then - 1 else 0)" for c
    unfolding v'_def sh ..
  show "0 \<le> r' i" "r' i \<le> d"
    using d s ri by (auto simp: r'_def wrap_rank_def)
  show "r' i = r' j \<Longrightarrow> r0 i = r0 j"
    using d s ri rj by (auto simp: r'_def wrap_rank_def split: if_splits)
  show "r' i < r' j \<Longrightarrow> v' j \<le> v' i"
    unfolding v' using d s ri rj sorted spread
    by (auto simp: r'_def wrap_rank_def split: if_splits)
  show "v' i - v' j \<le> 1"
    unfolding v' using d s ri rj sorted spread
    by (auto simp: r'_def wrap_rank_def split: if_splits)
qed




lemma point_simplex_total:
  assumes d: "0 \<le> d" and fb: "0 \<le> fbase" "fbase + d \<le> int (length feature)"
    and sf: "d \<le> int (length scale_factor)"
  shows "\<exists>elevated rank rem0.
           point_simplex feature fbase scale_factor d = Inr (elevated, rank, rem0)
           \<and> int (length elevated) = d + 1 \<and> int (length rank) = d + 1
           \<and> int (length rem0) = d + 1
           \<and> (\<forall>i. 0 \<le> i \<and> i \<le> d \<longrightarrow> 0 \<le> rank ! nat i \<and> rank ! nat i \<le> d)
           \<and> (\<forall>i j. i \<in> {0..d} \<and> j \<in> {0..d} \<and> rank ! nat i = rank ! nat j \<longrightarrow> i = j)
           \<and> (\<forall>i j. i \<in> {0..d} \<and> j \<in> {0..d} \<and> rank ! nat i < rank ! nat j
                  \<longrightarrow> weight_of elevated rem0 d j \<le> weight_of elevated rem0 d i)
           \<and> (\<forall>i j. i \<in> {0..d} \<and> j \<in> {0..d}
                  \<longrightarrow> weight_of elevated rem0 d i - weight_of elevated rem0 d j \<le> 1)"
proof -
  let ?D = "real_of_int (d + 1)"
  have Dpos: "0 < ?D" using d by simp
  from elevate_total [OF d fb sf]
  obtain el where el: "elevate feature fbase scale_factor d = Inr el"
    "int (length el) = d + 1" "sum_list el = 0" by blast
  from round_elevated_total [OF d el(2)]
  obtain rem0 s where rs: "round_elevated el d = Inr (rem0, s)" "int (length rem0) = d + 1"
    "\<And>i. 0 \<le> i \<and> i \<le> d \<Longrightarrow>
        rem0 ! nat i = real_of_int (c_round (1 / ?D * el ! nat i)) * ?D"
    "\<bar>real_of_int s - 1 / ?D * sum_list el\<bar> \<le> ?D / 2" by blast
  from rank_residuals_total [OF d el(2) rs(2)]
  obtain rank0 where r0: "rank_residuals el rem0 d = Inr rank0" "int (length rank0) = d + 1"
    "\<And>m. 0 \<le> m \<and> m \<le> d \<Longrightarrow> rank0 ! nat m = rank_count (residual el rem0) d m"
    unfolding rank_count_def by blast
  from correct_rank_total [OF d r0(2) rs(2), of s]
  obtain rank rem0' where cr: "correct_rank rank0 rem0 s d = Inr (rank, rem0')"
    "int (length rank) = d + 1" "int (length rem0') = d + 1"
    "\<And>i. 0 \<le> i \<and> i \<le> d \<Longrightarrow> rank ! nat i = wrap_rank d (rank0 ! nat i + s)
        \<and> rem0' ! nat i = rem0 ! nat i + wrap_rem0 d (rank0 ! nat i + s)" by blast
  have ps: "point_simplex feature fbase scale_factor d = Inr (el, rank, rem0')"
    by (simp add: point_simplex_def el(1) rs(1) r0(1) cr(1))
  define r0f where "r0f = rank_count (residual el rem0) d"
  define v0 where "v0 = (\<lambda>c. residual el rem0 c / ?D)"
  have sb: "- (d + 1) \<le> 2 * s" "2 * s \<le> d + 1"
  proof -
    from rs(4) el(3) have "\<bar>real_of_int s\<bar> \<le> ?D / 2" by simp
    then have "\<bar>real_of_int (2 * s)\<bar> \<le> real_of_int (d + 1)" by simp
    then have "\<bar>2 * s\<bar> \<le> d + 1" by (simp only: of_int_abs [symmetric] of_int_le_iff)
    then show "- (d + 1) \<le> 2 * s" "2 * s \<le> d + 1" by simp_all
  qed
  have v0b: "\<bar>v0 c\<bar> \<le> 1 / 2" if c: "c \<in> {0..d}" for c
  proof -
    have "residual el rem0 c = el ! nat c - real_of_int (c_round (1 / ?D * el ! nat c)) * ?D"
      using rs(3) [of c] c by (simp add: residual_def)
    then have "v0 c = 1 / ?D * el ! nat c - real_of_int (c_round (1 / ?D * el ! nat c))"
      using Dpos by (simp add: v0_def field_simps)
    with c_round_near [of "1 / ?D * el ! nat c"] show ?thesis by linarith
  qed
  have rng0: "0 \<le> r0f c" "r0f c \<le> d" if "c \<in> {0..d}" for c
    using rank_count_range [of c d "residual el rem0"] that by (simp_all add: r0f_def)
  have sorted0: "v0 j \<le> v0 i" if "i \<in> {0..d}" "j \<in> {0..d}" "r0f i < r0f j" for i j
  proof -
    have "residual el rem0 j \<le> residual el rem0 i"
      using rank_count_sorted [of i d j "residual el rem0"] that by (simp add: r0f_def)
    then show ?thesis using Dpos by (simp add: v0_def divide_right_mono)
  qed
  have inj0: "i = j" if "i \<in> {0..d}" "j \<in> {0..d}" "r0f i = r0f j" for i j
    using rank_count_inj [of i d j "residual el rem0"] that by (simp add: r0f_def)
  have rk: "rank ! nat c = wrap_rank d (r0f c + s)" if "c \<in> {0..d}" for c
    using cr(4) [of c] r0(3) [of c] that by (simp add: r0f_def)
  have alg: "(a - (b + x)) * (1 / D) = (a - b) / D - x / D" for a b x D :: real
    by (simp add: diff_divide_distrib add_divide_distrib)
  have w: "weight_of el rem0' d c = v0 c - wrap_rem0 d (r0f c + s) / ?D" if "c \<in> {0..d}" for c
  proof -
    from that have c: "0 \<le> c \<and> c \<le> d" by simp
    have "rem0' ! nat c = rem0 ! nat c + wrap_rem0 d (r0f c + s)"
      using cr(4) [OF c] r0(3) [OF c] by (simp add: r0f_def)
    then show ?thesis
      by (simp only: weight_of_def v0_def residual_def alg)
  qed
  note wf = wrap_facts [where ?r0.0 = r0f and ?v0.0 = v0, OF d sb]
  have facts: "0 \<le> rank ! nat i" "rank ! nat i \<le> d"
    "rank ! nat i = rank ! nat j \<Longrightarrow> i = j"
    "rank ! nat i < rank ! nat j \<Longrightarrow> weight_of el rem0' d j \<le> weight_of el rem0' d i"
    "weight_of el rem0' d i - weight_of el rem0' d j \<le> 1"
    if ij: "i \<in> {0..d}" "j \<in> {0..d}" for i j
  proof -
    have sp: "v0 i - v0 j \<le> 1" "v0 j - v0 i \<le> 1"
      using v0b [OF ij(1)] v0b [OF ij(2)] by linarith+
    note f = wf [OF rng0 [OF ij(1)] rng0 [OF ij(2)] sorted0 [OF ij] sorted0 [OF ij(2,1)] sp]
    show "0 \<le> rank ! nat i" "rank ! nat i \<le> d" using f(1,2) rk [OF ij(1)] by simp_all
    show "rank ! nat i = rank ! nat j \<Longrightarrow> i = j"
      using f(3) rk [OF ij(1)] rk [OF ij(2)] inj0 [OF ij] by simp
    show "rank ! nat i < rank ! nat j \<Longrightarrow> weight_of el rem0' d j \<le> weight_of el rem0' d i"
      using f(4) rk [OF ij(1)] rk [OF ij(2)] w [OF ij(1)] w [OF ij(2)] by simp
    show "weight_of el rem0' d i - weight_of el rem0' d j \<le> 1"
      using f(5) w [OF ij(1)] w [OF ij(2)] by simp
  qed
  show ?thesis
  proof (intro exI conjI allI impI)
    show "point_simplex feature fbase scale_factor d = Inr (el, rank, rem0')" by (rule ps)
    show "int (length el) = d + 1" "int (length rank) = d + 1" "int (length rem0') = d + 1"
      by (fact el(2) cr(2) cr(3))+
  next
    fix i assume "0 \<le> i \<and> i \<le> d"
    then have "i \<in> {0..d}" by simp
    from facts(1,2) [OF this this] show "0 \<le> rank ! nat i" "rank ! nat i \<le> d" .
  next
    fix i j assume "i \<in> {0..d} \<and> j \<in> {0..d} \<and> rank ! nat i = rank ! nat j"
    then show "i = j" using facts(3) by blast
  next
    fix i j assume "i \<in> {0..d} \<and> j \<in> {0..d} \<and> rank ! nat i < rank ! nat j"
    then show "weight_of el rem0' d j \<le> weight_of el rem0' d i" using facts(4) by blast
  next
    fix i j assume "i \<in> {0..d} \<and> j \<in> {0..d}"
    then show "weight_of el rem0' d i - weight_of el rem0' d j \<le> 1" using facts(5) by blast
  qed
qed

lemma init_point_simplex:
  "init_point feature feature_size d scale_factor canonical k st =
     bnd (point_simplex feature (k * feature_size) scale_factor d) (\<lambda>t.
       case t of (elevated, rank, rem0) \<Rightarrow>
         bnd (barycentric_coords elevated rem0 rank d) (\<lambda>barycentric.
           for_loop [0..d] (store_corner rem0 rank canonical barycentric d k) st))"
  by (simp add: init_point_def point_simplex_def bnd_def split: sum.splits)




section \<open>The lattice that \<open>init\<close> builds\<close>

lemma canonical_simplex_total:
  assumes d: "0 \<le> d"
  shows "\<exists>c. canonical_simplex d = Inr c \<and> int (length c) = (d + 1) * (d + 1)"
proof -
  let ?L = "(d + 1) * (d + 1)"
  let ?I = "\<lambda>c :: int list. int (length c) = ?L"
  have L: "0 \<le> ?L" using d by simp
  have w: "\<exists>c'. wr c (i * (d + 1) + j) x = Inr c' \<and> ?I c'"
    if "0 \<le> i" "i \<le> d" "0 \<le> j" "j \<le> d" "?I c" for i j x c
  proof -
    have "0 \<le> i * (d + 1) + j" "i * (d + 1) + j < ?L"
      using slot_bounds [of i "d + 1" j "d + 1"] that by simp_all
    with that(5) show ?thesis by (simp add: wr_in)
  qed
  have "\<exists>c. for_loop [0..d] (\<lambda>i canonical.
         bnd (for_loop [0..d - i] (\<lambda>j canonical. wr canonical (i * (d + 1) + j) i) canonical)
           (\<lambda>canonical.
         for_loop [d - i + 1..d] (\<lambda>j canonical. wr canonical (i * (d + 1) + j) (i - (d + 1)))
           canonical)) (replicate (nat ?L) 0) = Inr c \<and> ?I c"
  proof (rule for_loop_keep [where I = ?I])
    show "?I (replicate (nat ?L) 0)" using L by simp
  next
    fix i and c :: "int list" assume i: "0 \<le> i" "i \<le> d" and I: "?I c"
    have "\<exists>c1. for_loop [0..d - i] (\<lambda>j canonical. wr canonical (i * (d + 1) + j) i) c = Inr c1
            \<and> ?I c1"
      by (rule for_loop_keep [where I = ?I, OF I]) (use i w in auto)
    then obtain c1 where c1: "for_loop [0..d - i] (\<lambda>j canonical. wr canonical (i * (d + 1) + j) i) c
        = Inr c1" "?I c1" by blast
    have "\<exists>c2. for_loop [d - i + 1..d]
            (\<lambda>j canonical. wr canonical (i * (d + 1) + j) (i - (d + 1))) c1 = Inr c2 \<and> ?I c2"
      by (rule for_loop_keep [where I = ?I, OF c1(2)]) (use i w in auto)
    with c1(1) show "\<exists>s'. bnd (for_loop [0..d - i] (\<lambda>j canonical. wr canonical (i * (d + 1) + j) i) c)
           (\<lambda>canonical.
         for_loop [d - i + 1..d] (\<lambda>j canonical. wr canonical (i * (d + 1) + j) (i - (d + 1)))
           canonical) = Inr s' \<and> ?I s'" by simp
  qed
  then show ?thesis using L by (simp add: canonical_simplex_def new_array_def)
qed

lemma corner_key_total:
  assumes d: "0 \<le> d" and len: "int (length rem0) = d + 1" "int (length rank) = d + 1"
    "int (length canonical) = (d + 1) * (d + 1)"
    and rk: "\<And>i. 0 \<le> i \<and> i \<le> d \<Longrightarrow> 0 \<le> rank ! nat i \<and> rank ! nat i \<le> d"
    and r: "0 \<le> remainder" "remainder \<le> d"
  shows "\<exists>key. corner_key rem0 rank canonical d remainder = Inr key \<and> int (length key) = d + 1"
proof -
  let ?I = "\<lambda>key :: int list. int (length key) = d + 1"
  have "\<exists>key. for_loop [0..d - 1] (\<lambda>i key.
         bnd (rd rem0 i) (\<lambda>r0.
         bnd (rd rank i) (\<lambda>r.
         bnd (rd canonical (remainder * (d + 1) + r)) (\<lambda>c.
         wr key i (c_trunc (r0 + real_of_int c)))))) (replicate (nat (d + 1)) 0) = Inr key \<and> ?I key"
  proof (rule for_loop_keep [where I = ?I])
    show "?I (replicate (nat (d + 1)) 0)" using d by simp
  next
    fix i and key :: "int list" assume i: "0 \<le> i" "i \<le> d - 1" and I: "?I key"
    have ri: "0 \<le> rank ! nat i" "rank ! nat i \<le> d" using rk [of i] i by simp_all
    have "0 \<le> remainder * (d + 1) + rank ! nat i"
      "remainder * (d + 1) + rank ! nat i < int (length canonical)"
      using slot_bounds [of remainder "d + 1" "rank ! nat i" "d + 1"] r ri len(3) by simp_all
    then show "\<exists>s'. bnd (rd rem0 i) (\<lambda>r0.
         bnd (rd rank i) (\<lambda>r.
         bnd (rd canonical (remainder * (d + 1) + r)) (\<lambda>c.
         wr key i (c_trunc (r0 + real_of_int c))))) = Inr s' \<and> ?I s'"
      using i len I by (simp add: rd_in wr_in)
  qed
  then show ?thesis using d by (simp add: corner_key_def new_array_def)
qed

lemma key_index_range:
  "0 \<le> i \<Longrightarrow> key_index xs k i = - 1 \<or> (i \<le> key_index xs k i \<and> key_index xs k i < i + int (length xs))"
proof (induction xs arbitrary: i)
  case Nil
  then show ?case by simp
next
  case (Cons x xs)
  from Cons.IH [of "i + 1"] Cons.prems show ?case by auto
qed

lemma HashTable_find_create:
  assumes "HashTable_find h key True = (h', idx)"
  shows "key_size h' = key_size h" "0 \<le> idx" "idx < HashTable_size h'"
    "HashTable_size h \<le> HashTable_size h'"
    "keys h' = keys h \<or> keys h' = keys h @ [take (nat (key_size h)) key]"
  using assms key_index_range [of 0 "keys h" "take (nat (key_size h)) key"]
  by (auto simp: HashTable_find_def HashTable_size_def Let_def split: if_splits)

lemma HashTable_find_lookup:
  "- 1 \<le> snd (HashTable_find h key False)"
  "snd (HashTable_find h key False) < HashTable_size h"
  using key_index_range [of 0 "keys h" "take (nat (key_size h)) key"]
  by (auto simp: HashTable_find_def HashTable_size_def Let_def)

lemma map_nth_upto:
  assumes "0 \<le> d" "d + 1 \<le> int (length b)"
  shows "map (\<lambda>r. b ! nat r) [0..d] = take (nat (d + 1)) b"
proof (rule nth_equalityI)
  show "length (map (\<lambda>r. b ! nat r) [0..d]) = length (take (nat (d + 1)) b)"
    using assms by simp
next
  fix i assume "i < length (map (\<lambda>r. b ! nat r) [0..d])"
  then have i: "int i \<le> d" using assms by simp
  then have "[0..d] ! i = int i" by (simp add: nth_upto)
  with i assms show "map (\<lambda>r. b ! nat r) [0..d] ! i = take (nat (d + 1)) b ! i" by simp
qed

lemma point_weights_total:
  assumes d: "0 \<le> d" and fb: "0 \<le> fbase" "fbase + d \<le> int (length feature)"
    and sf: "d \<le> int (length scale_factor)"
  shows "\<exists>elevated rank rem0 b.
           point_simplex feature fbase scale_factor d = Inr (elevated, rank, rem0)
           \<and> barycentric_coords elevated rem0 rank d = Inr b
           \<and> int (length rank) = d + 1 \<and> int (length rem0) = d + 1 \<and> int (length b) = d + 2
           \<and> (\<forall>i. 0 \<le> i \<and> i \<le> d \<longrightarrow> 0 \<le> rank ! nat i \<and> rank ! nat i \<le> d)
           \<and> (\<Sum>r\<leftarrow>[0..d]. b ! nat r) = 1
           \<and> (\<forall>r. 0 \<le> r \<and> r \<le> d \<longrightarrow> 0 \<le> b ! nat r)"
proof -
  from point_simplex_total [OF assms]
  obtain el rank rem0 where ps: "point_simplex feature fbase scale_factor d = Inr (el, rank, rem0)"
    "int (length el) = d + 1" "int (length rank) = d + 1" "int (length rem0) = d + 1"
    and rng: "\<And>i. 0 \<le> i \<and> i \<le> d \<Longrightarrow> 0 \<le> rank ! nat i \<and> rank ! nat i \<le> d"
    and inj: "\<And>i j. i \<in> {0..d} \<Longrightarrow> j \<in> {0..d} \<Longrightarrow> rank ! nat i = rank ! nat j \<Longrightarrow> i = j"
    and sorted: "\<And>i j. i \<in> {0..d} \<Longrightarrow> j \<in> {0..d} \<Longrightarrow> rank ! nat i < rank ! nat j
                  \<Longrightarrow> weight_of el rem0 d j \<le> weight_of el rem0 d i"
    and spread: "\<And>i j. i \<in> {0..d} \<Longrightarrow> j \<in> {0..d}
                  \<Longrightarrow> weight_of el rem0 d i - weight_of el rem0 d j \<le> 1"
    by blast
  from barycentric_coords_total [OF d ps(2,4,3) rng]
  obtain b where b: "barycentric_coords el rem0 rank d = Inr b" "int (length b) = d + 2"
    "sum_list (take (nat (d + 1)) b) = 1"
    "\<And>m. 0 \<le> m \<and> m \<le> d \<Longrightarrow>
       b ! nat m = bary_acc d rank (weight_of el rem0 d) (d + 1) m
                   + (if m = 0 then 1 + bary_acc d rank (weight_of el rem0 d) (d + 1) (d + 1) else 0)"
    unfolding weight_of_def by blast
  have rng': "rank ! nat i \<in> {0..d}" if "i \<in> {0..d}" for i using rng [of i] that by simp
  have nn: "0 \<le> b ! nat m" if m: "0 \<le> m \<and> m \<le> d" for m
  proof -
    from m have "0 \<le> m" "m \<le> d" by simp_all
    from weights_nonneg [where m = m and v = "weight_of el rem0 d", OF d inj rng' sorted spread this]
    show ?thesis unfolding b(4) [OF m] .
  qed
  have one: "(\<Sum>r\<leftarrow>[0..d]. b ! nat r) = 1"
    using map_nth_upto [of d b] d b(2,3) by simp
  show ?thesis
  proof (intro exI conjI allI impI)
    show "point_simplex feature fbase scale_factor d = Inr (el, rank, rem0)" by (rule ps(1))
    show "barycentric_coords el rem0 rank d = Inr b" by (rule b(1))
    show "int (length rank) = d + 1" "int (length rem0) = d + 1" "int (length b) = d + 2"
      by (fact ps(3) ps(4) b(2))+
    show "(\<Sum>r\<leftarrow>[0..d]. b ! nat r) = 1" by (rule one)
  next
    fix i assume "0 \<le> i \<and> i \<le> d"
    from rng [OF this] show "0 \<le> rank ! nat i" "rank ! nat i \<le> d" by simp_all
  next
    fix r assume "0 \<le> r \<and> r \<le> d"
    then show "0 \<le> b ! nat r" by (rule nn)
  qed
qed




lemma store_corner_total:
  assumes d: "0 \<le> d" and k: "0 \<le> k" "k < N" and r: "0 \<le> r" "r \<le> d"
    and len: "int (length rem0) = d + 1" "int (length rank) = d + 1"
      "int (length canonical) = (d + 1) * (d + 1)" "int (length b) = d + 2"
    and rk: "\<And>i. 0 \<le> i \<and> i \<le> d \<Longrightarrow> 0 \<le> rank ! nat i \<and> rank ! nat i \<le> d"
    and st: "key_size h = d" "list_all (\<lambda>key. int (length key) = d) (keys h)"
      "int (length off) = (d + 1) * N" "int (length bar) = (d + 1) * N"
  shows "\<exists>h' idx. store_corner rem0 rank canonical b d k r (h, off, bar)
             = Inr (h', off[nat (k * (d + 1) + r) := idx], bar[nat (k * (d + 1) + r) := b ! nat r])
           \<and> key_size h' = d \<and> list_all (\<lambda>key. int (length key) = d) (keys h')
           \<and> HashTable_size h \<le> HashTable_size h' \<and> 0 \<le> idx \<and> idx < HashTable_size h'"
proof -
  from corner_key_total [OF d len(1,2,3) rk r]
  obtain key where key: "corner_key rem0 rank canonical d r = Inr key" "int (length key) = d + 1"
    by blast
  obtain h' idx where f: "HashTable_find h key True = (h', idx)" by (cases "HashTable_find h key True")
  note hf = HashTable_find_create [OF f]
  have slot: "0 \<le> k * (d + 1) + r" "k * (d + 1) + r < (d + 1) * N"
    using slot_bounds [of k N r "d + 1"] k r by (simp_all add: mult.commute)
  have w1: "wr off (k * (d + 1) + r) idx = Inr (off[nat (k * (d + 1) + r) := idx])"
    using slot st(3) by (simp add: wr_in)
  have r1: "rd b r = Inr (b ! nat r)" using r len(4) by (simp add: rd_in)
  have w2: "wr bar (k * (d + 1) + r) (b ! nat r) = Inr (bar[nat (k * (d + 1) + r) := b ! nat r])"
    using slot st(4) by (simp add: wr_in)
  have ex: "store_corner rem0 rank canonical b d k r (h, off, bar)
             = Inr (h', off[nat (k * (d + 1) + r) := idx], bar[nat (k * (d + 1) + r) := b ! nat r])"
    by (simp add: store_corner_def key(1) f w1 r1 w2)
  have "int (length (take (nat (key_size h)) key)) = d" using st(1) key(2) d by simp
  with hf(5) st(2) have "list_all (\<lambda>key. int (length key) = d) (keys h')" by auto
  with ex hf st(1) show ?thesis by auto
qed

lemma init_point_total:
  assumes d: "0 \<le> d" and k: "0 \<le> k" "k < N" and feat: "N * d \<le> int (length feature)"
    and sf: "d \<le> int (length scale_factor)"
    and can: "int (length canonical) = (d + 1) * (d + 1)"
    and st: "key_size h = d" "list_all (\<lambda>key. int (length key) = d) (keys h)"
      "int (length off) = (d + 1) * N" "int (length bar) = (d + 1) * N"
  shows "\<exists>h' off' bar'.
           init_point feature d d scale_factor canonical k (h, off, bar) = Inr (h', off', bar')
           \<and> key_size h' = d \<and> list_all (\<lambda>key. int (length key) = d) (keys h')
           \<and> length off' = length off \<and> length bar' = length bar
           \<and> HashTable_size h \<le> HashTable_size h'
           \<and> (\<forall>idx. 0 \<le> idx \<and> idx < k * (d + 1)
                 \<longrightarrow> off' ! nat idx = off ! nat idx \<and> bar' ! nat idx = bar ! nat idx)
           \<and> (\<forall>r. 0 \<le> r \<and> r \<le> d
                 \<longrightarrow> 0 \<le> off' ! nat (k * (d + 1) + r)
                     \<and> off' ! nat (k * (d + 1) + r) < HashTable_size h'
                     \<and> 0 \<le> bar' ! nat (k * (d + 1) + r))
           \<and> (\<Sum>r\<leftarrow>[0..d]. bar' ! nat (k * (d + 1) + r)) = 1"
proof -
  have fb: "0 \<le> k * d" "k * d + d \<le> int (length feature)"
    using k d slot_end [of d k N] feat by simp_all
  from point_weights_total [OF d fb sf]
  obtain el rank rem0 b where ps: "point_simplex feature (k * d) scale_factor d = Inr (el, rank, rem0)"
    and bc: "barycentric_coords el rem0 rank d = Inr b"
    and len: "int (length rank) = d + 1" "int (length rem0) = d + 1" "int (length b) = d + 2"
    and rk: "\<And>i. 0 \<le> i \<and> i \<le> d \<Longrightarrow> 0 \<le> rank ! nat i \<and> rank ! nat i \<le> d"
    and one: "(\<Sum>r\<leftarrow>[0..d]. b ! nat r) = 1"
    and nn: "\<And>r. 0 \<le> r \<and> r \<le> d \<Longrightarrow> 0 \<le> b ! nat r"
    by blast
  let ?J = "\<lambda>r (st :: HashTable \<times> int list \<times> real list).
      key_size (fst st) = d \<and> list_all (\<lambda>key. int (length key) = d) (keys (fst st))
      \<and> length (fst (snd st)) = length off \<and> length (snd (snd st)) = length bar
      \<and> HashTable_size h \<le> HashTable_size (fst st)
      \<and> (\<forall>idx. 0 \<le> idx \<and> idx < k * (d + 1)
            \<longrightarrow> fst (snd st) ! nat idx = off ! nat idx \<and> snd (snd st) ! nat idx = bar ! nat idx)
      \<and> (\<forall>r'. 0 \<le> r' \<and> r' < r
            \<longrightarrow> 0 \<le> fst (snd st) ! nat (k * (d + 1) + r')
                \<and> fst (snd st) ! nat (k * (d + 1) + r') < HashTable_size (fst st)
                \<and> snd (snd st) ! nat (k * (d + 1) + r') = b ! nat r')"
  have "\<exists>st'. for_loop [0..d] (store_corner rem0 rank canonical b d k) (h, off, bar) = Inr st'
          \<and> ?J (d + 1) st'"
  proof (rule for_loop_total [where I = ?J])
    show "?J 0 (h, off, bar)" using st by simp
  next
    fix r s assume r: "0 \<le> r" "r \<le> d" and J: "?J r s"
    obtain h1 off1 bar1 where s: "s = (h1, off1, bar1)" by (cases s)
    from J s have j: "key_size h1 = d" "list_all (\<lambda>key. int (length key) = d) (keys h1)"
      "length off1 = length off" "length bar1 = length bar"
      "HashTable_size h \<le> HashTable_size h1"
      and frame: "\<And>idx. 0 \<le> idx \<and> idx < k * (d + 1)
            \<Longrightarrow> off1 ! nat idx = off ! nat idx \<and> bar1 ! nat idx = bar ! nat idx"
      and prev: "\<And>r'. 0 \<le> r' \<and> r' < r
            \<Longrightarrow> 0 \<le> off1 ! nat (k * (d + 1) + r')
                \<and> off1 ! nat (k * (d + 1) + r') < HashTable_size h1
                \<and> bar1 ! nat (k * (d + 1) + r') = b ! nat r'"
      by simp_all
    have l1: "int (length off1) = (d + 1) * N" "int (length bar1) = (d + 1) * N"
      using j(3,4) st(3,4) by simp_all
    from store_corner_total [OF d k r len(2,1) can len(3) rk j(1,2) l1]
    obtain h2 idx where sc: "store_corner rem0 rank canonical b d k r (h1, off1, bar1)
             = Inr (h2, off1[nat (k * (d + 1) + r) := idx], bar1[nat (k * (d + 1) + r) := b ! nat r])"
      and h2: "key_size h2 = d" "list_all (\<lambda>key. int (length key) = d) (keys h2)"
        "HashTable_size h1 \<le> HashTable_size h2" "0 \<le> idx" "idx < HashTable_size h2"
      by blast
    let ?p = "nat (k * (d + 1) + r)"
    have slot: "0 \<le> k * (d + 1) + r" "k * (d + 1) + r < (d + 1) * N"
      using slot_bounds [of k N r "d + 1"] k r by (simp_all add: mult.commute)
    have plt: "?p < length off1" "?p < length bar1" using slot l1 by linarith+
    have kd: "0 \<le> k * (d + 1)" using k d by simp
    have "?J (r + 1) (h2, off1[?p := idx], bar1[?p := b ! nat r])"
    proof (intro conjI allI impI)
      fix idx' assume i: "0 \<le> idx' \<and> idx' < k * (d + 1)"
      then have ne: "nat idx' \<noteq> ?p" using r by linarith
      show "fst (snd (h2, off1[?p := idx], bar1[?p := b ! nat r])) ! nat idx' = off ! nat idx'"
        using frame [OF i] ne by simp
      show "snd (snd (h2, off1[?p := idx], bar1[?p := b ! nat r])) ! nat idx' = bar ! nat idx'"
        using frame [OF i] ne by simp
    next
      fix r' assume r': "0 \<le> r' \<and> r' < r + 1"
      have e: "nat (k * (d + 1) + r') = ?p \<longleftrightarrow> r' = r" using r' r kd by linarith
      show "0 \<le> fst (snd (h2, off1[?p := idx], bar1[?p := b ! nat r])) ! nat (k * (d + 1) + r')"
        using prev [of r'] r' e h2 plt by (cases "r' = r") simp_all
      show "fst (snd (h2, off1[?p := idx], bar1[?p := b ! nat r])) ! nat (k * (d + 1) + r')
              < HashTable_size (fst (h2, off1[?p := idx], bar1[?p := b ! nat r]))"
        using prev [of r'] r' e h2 plt by (cases "r' = r") simp_all
      show "snd (snd (h2, off1[?p := idx], bar1[?p := b ! nat r])) ! nat (k * (d + 1) + r')
              = b ! nat r'"
        using prev [of r'] r' e h2 plt by (cases "r' = r") simp_all
    qed (use h2 j in simp_all)
    with sc s show "\<exists>s'. store_corner rem0 rank canonical b d k r s = Inr s' \<and> ?J (r + 1) s'"
      by blast
  next
    show "0 \<le> d + 1" using d by simp
  qed
  then obtain h' off' bar' where
    l: "for_loop [0..d] (store_corner rem0 rank canonical b d k) (h, off, bar) = Inr (h', off', bar')"
    and J: "?J (d + 1) (h', off', bar')"
    by (metis prod_cases3)
  have ip: "init_point feature d d scale_factor canonical k (h, off, bar) = Inr (h', off', bar')"
    by (simp add: init_point_simplex ps bc l)
  from J have row: "\<And>r. 0 \<le> r \<and> r \<le> d
            \<Longrightarrow> 0 \<le> off' ! nat (k * (d + 1) + r)
                \<and> off' ! nat (k * (d + 1) + r) < HashTable_size h'
                \<and> bar' ! nat (k * (d + 1) + r) = b ! nat r" by simp
  have "map (\<lambda>r. bar' ! nat (k * (d + 1) + r)) [0..d] = map (\<lambda>r. b ! nat r) [0..d]"
    using row by (intro map_cong) simp_all
  then have "(\<Sum>r\<leftarrow>[0..d]. bar' ! nat (k * (d + 1) + r)) = (\<Sum>r\<leftarrow>[0..d]. b ! nat r)"
    by (rule arg_cong)
  with one have sum1: "(\<Sum>r\<leftarrow>[0..d]. bar' ! nat (k * (d + 1) + r)) = 1" by (simp only:)
  show ?thesis
  proof (intro exI conjI allI impI)
    show "init_point feature d d scale_factor canonical k (h, off, bar) = Inr (h', off', bar')"
      by (rule ip)
    show "(\<Sum>r\<leftarrow>[0..d]. bar' ! nat (k * (d + 1) + r)) = 1" by (rule sum1)
  next
    fix r assume r: "0 \<le> r \<and> r \<le> d"
    from row [OF r] nn [OF r]
    show "0 \<le> off' ! nat (k * (d + 1) + r)" "off' ! nat (k * (d + 1) + r) < HashTable_size h'"
      "0 \<le> bar' ! nat (k * (d + 1) + r)" by simp_all
  next
    fix idx assume "0 \<le> idx \<and> idx < k * (d + 1)"
    with J show "off' ! nat idx = off ! nat idx" "bar' ! nat idx = bar ! nat idx" by simp_all
  qed (use J in simp_all)
qed




lemma probe_key_total:
  assumes d: "0 \<le> d" and len: "int (length key) = d" and j: "0 \<le> j" "j \<le> d"
  shows "\<exists>n. probe_key key d j step = Inr n \<and> int (length n) = d + 1"
proof -
  let ?I = "\<lambda>n :: int list. int (length n) = d + 1"
  have "\<exists>n. for_loop [0..d - 1] (\<lambda>k n. bnd (rd key k) (\<lambda>x. wr n k (x - step)))
               (replicate (nat (d + 1)) 0) = Inr n \<and> ?I n"
  proof (rule for_loop_keep [where I = ?I])
    show "?I (replicate (nat (d + 1)) 0)" using d by simp
  next
    fix k and n :: "int list" assume "0 \<le> k" "k \<le> d - 1" "?I n"
    then show "\<exists>s'. bnd (rd key k) (\<lambda>x. wr n k (x - step)) = Inr s' \<and> ?I s'"
      using len by (simp add: rd_in wr_in)
  qed
  then obtain n where n: "for_loop [0..d - 1] (\<lambda>k n. bnd (rd key k) (\<lambda>x. wr n k (x - step)))
               (replicate (nat (d + 1)) 0) = Inr n" "?I n" by blast
  have "\<exists>n'. (if j < d then bnd (rd key j) (\<lambda>x. wr n j (x + step * d)) else Inr n) = Inr n' \<and> ?I n'"
    using n(2) j len by (simp add: rd_in wr_in)
  with n(1) show ?thesis using d by (simp add: probe_key_def new_array_def)
qed

lemma find_neighbors_total:
  assumes d: "0 \<le> d" and h: "list_all (\<lambda>key. int (length key) = d) (keys h)"
    and M: "M = HashTable_size h" and j: "0 \<le> j" "j \<le> d" and i: "0 \<le> i" "i < M"
    and nbs: "int (length nbs) = (d + 1) * M" "list_all (neighbor_ok M) nbs"
  shows "\<exists>nbs'. find_neighbors h d M j i nbs = Inr nbs'
           \<and> length nbs' = length nbs \<and> list_all (neighbor_ok M) nbs'"
proof -
  have ik: "nat i < length (keys h)" using i M by (simp add: HashTable_size_def)
  then have gk: "HashTable_getKey h i = Inr (keys h ! nat i)"
    using i by (simp add: HashTable_getKey_def rd_in)
  from h ik have kl: "int (length (keys h ! nat i)) = d" by (simp add: list_all_length)
  from probe_key_total [OF d kl j, of 1]
  obtain p1 where p1: "probe_key (keys h ! nat i) d j 1 = Inr p1" by blast
  from probe_key_total [OF d kl j, of "- 1"]
  obtain p2 where p2: "probe_key (keys h ! nat i) d j (- 1) = Inr p2" by blast
  let ?nb = "Neighbors (snd (HashTable_find h p1 False)) (snd (HashTable_find h p2 False))"
  have ok: "neighbor_ok M ?nb"
    using HashTable_find_lookup [of h p1] HashTable_find_lookup [of h p2] M
    by (simp add: neighbor_ok_def)
  have slot: "0 \<le> j * M + i" "j * M + i < (d + 1) * M"
    using slot_bounds [of j "d + 1" i M] j i by simp_all
  then have w: "wr nbs (j * M + i) ?nb = Inr (nbs[nat (j * M + i) := ?nb])"
    using nbs(1) by (simp add: wr_in)
  have "list_all (neighbor_ok M) (nbs[nat (j * M + i) := ?nb])"
    using nbs(2) ok set_update_subset_insert [of nbs "nat (j * M + i)" ?nb]
    by (auto simp: list_all_iff)
  then show ?thesis
    by (simp add: find_neighbors_def gk p1 p2 w)
qed

lemma init_total:
  assumes d: "0 \<le> d" and N: "0 \<le> N" and feat: "N * d \<le> int (length feature)"
  shows "\<exists>p. init this feature d N = Inr p \<and> lattice_ok p \<and> N_p p = N \<and> d_p p = d
           \<and> (\<forall>k. 0 \<le> k \<and> k < N \<longrightarrow>
                 (\<Sum>r\<leftarrow>[0..d]. tab (barycentric_p p) (k * (d + 1) + r)) = 1
                 \<and> (\<forall>r. 0 \<le> r \<and> r \<le> d \<longrightarrow> 0 \<le> tab (barycentric_p p) (k * (d + 1) + r)))"
proof -
  let ?L = "(d + 1) * N"
  have L: "0 \<le> ?L" using d N by simp
  from scale_factors_total [OF d]
  obtain sf where sf: "scale_factors d = Inr sf" "int (length sf) = d" by blast
  from canonical_simplex_total [OF d]
  obtain can where can: "canonical_simplex d = Inr can" "int (length can) = (d + 1) * (d + 1)"
    by blast
  let ?row = "\<lambda>(bar :: real list) k.
      (\<Sum>r\<leftarrow>[0..d]. bar ! nat (k * (d + 1) + r)) = 1
      \<and> (\<forall>r. 0 \<le> r \<and> r \<le> d \<longrightarrow> 0 \<le> bar ! nat (k * (d + 1) + r))"
  let ?Inv = "\<lambda>k (st :: HashTable \<times> int list \<times> real list).
      key_size (fst st) = d \<and> list_all (\<lambda>key. int (length key) = d) (keys (fst st))
      \<and> int (length (fst (snd st))) = ?L \<and> int (length (snd (snd st))) = ?L
      \<and> (\<forall>idx. 0 \<le> idx \<and> idx < k * (d + 1)
            \<longrightarrow> 0 \<le> fst (snd st) ! nat idx \<and> fst (snd st) ! nat idx < HashTable_size (fst st))
      \<and> (\<forall>k'. 0 \<le> k' \<and> k' < k \<longrightarrow> ?row (snd (snd st)) k')"
  let ?st0 = "(HashTable_new d (N * (d + 1)), replicate (nat ?L) (0::int), replicate (nat ?L) (0::real))"
  have "\<exists>st. for_loop [0..N - 1] (init_point feature d d sf can) ?st0 = Inr st \<and> ?Inv (N - 1 + 1) st"
  proof (rule for_loop_total [where I = ?Inv])
    show "?Inv 0 ?st0" using L d by (simp add: HashTable_new_def)
  next
    fix k s assume k: "0 \<le> k" "k \<le> N - 1" and I: "?Inv k s"
    obtain h off bar where s: "s = (h, off, bar)" by (cases s)
    from I s have st: "key_size h = d" "list_all (\<lambda>key. int (length key) = d) (keys h)"
      "int (length off) = ?L" "int (length bar) = ?L"
      and offs: "\<And>idx. 0 \<le> idx \<and> idx < k * (d + 1)
            \<Longrightarrow> 0 \<le> off ! nat idx \<and> off ! nat idx < HashTable_size h"
      and rows: "\<And>k'. 0 \<le> k' \<and> k' < k \<Longrightarrow> ?row bar k'"
      by simp_all
    have kN: "k < N" using k by simp
    have sfl: "d \<le> int (length sf)" using sf(2) by simp
    from init_point_total [OF d k(1) kN feat sfl can(2) st]
    obtain h' off' bar' where ip: "init_point feature d d sf can k (h, off, bar) = Inr (h', off', bar')"
      and h': "key_size h' = d" "list_all (\<lambda>key. int (length key) = d) (keys h')"
        "length off' = length off" "length bar' = length bar"
        "HashTable_size h \<le> HashTable_size h'"
      and frame: "\<And>idx. 0 \<le> idx \<and> idx < k * (d + 1)
                 \<Longrightarrow> off' ! nat idx = off ! nat idx \<and> bar' ! nat idx = bar ! nat idx"
      and new: "\<And>r. 0 \<le> r \<and> r \<le> d
                 \<Longrightarrow> 0 \<le> off' ! nat (k * (d + 1) + r)
                     \<and> off' ! nat (k * (d + 1) + r) < HashTable_size h'
                     \<and> 0 \<le> bar' ! nat (k * (d + 1) + r)"
      and sum1: "(\<Sum>r\<leftarrow>[0..d]. bar' ! nat (k * (d + 1) + r)) = 1"
      by blast
    have "?Inv (k + 1) (h', off', bar')"
    proof (intro conjI allI impI)
      fix idx assume idx: "0 \<le> idx \<and> idx < (k + 1) * (d + 1)"
      have "0 \<le> off' ! nat idx \<and> off' ! nat idx < HashTable_size h'"
      proof (cases "idx < k * (d + 1)")
        case True
        with idx frame [of idx] offs [of idx] h'(5) show ?thesis by simp
      next
        case False
        define r where "r = idx - k * (d + 1)"
        have "0 \<le> r \<and> r \<le> d" using False idx by (simp add: r_def algebra_simps)
        from new [OF this] show ?thesis by (simp add: r_def)
      qed
      then show "0 \<le> fst (snd (h', off', bar')) ! nat idx"
        "fst (snd (h', off', bar')) ! nat idx < HashTable_size (fst (h', off', bar'))" by simp_all
    next
      fix k' assume k': "0 \<le> k' \<and> k' < k + 1"
      have row': "?row bar' k'"
      proof (cases "k' = k")
        case True
        with new sum1 show ?thesis by simp
      next
        case False
        with k' have lt: "k' < k" by simp
        have same: "bar' ! nat (k' * (d + 1) + r) = bar ! nat (k' * (d + 1) + r)"
          if "0 \<le> r \<and> r \<le> d" for r
        proof -
          have "0 \<le> k' * (d + 1) + r" "k' * (d + 1) + r < k * (d + 1)"
            using slot_bounds [of k' k r "d + 1"] k' lt that by simp_all
          with frame show ?thesis by simp
        qed
        then have "map (\<lambda>r. bar' ! nat (k' * (d + 1) + r)) [0..d]
                     = map (\<lambda>r. bar ! nat (k' * (d + 1) + r)) [0..d]"
          by (intro map_cong) simp_all
        then have "(\<Sum>r\<leftarrow>[0..d]. bar' ! nat (k' * (d + 1) + r))
                     = (\<Sum>r\<leftarrow>[0..d]. bar ! nat (k' * (d + 1) + r))" by (rule arg_cong)
        with rows [of k'] k' lt same show ?thesis by simp
      qed
      then show "(\<Sum>r\<leftarrow>[0..d]. snd (snd (h', off', bar')) ! nat (k' * (d + 1) + r)) = 1" by simp
      fix r assume "0 \<le> r \<and> r \<le> d"
      with row' show "0 \<le> snd (snd (h', off', bar')) ! nat (k' * (d + 1) + r)" by simp
    qed (use h' st in simp_all)
    with ip s show "\<exists>s'. init_point feature d d sf can k s = Inr s' \<and> ?Inv (k + 1) s'" by blast
  next
    show "0 \<le> N - 1 + 1" using N by simp
  qed
  then obtain st where lp0: "for_loop [0..N - 1] (init_point feature d d sf can) ?st0 = Inr st"
    and I0: "?Inv (N - 1 + 1) st" by blast
  obtain h off bar where st: "st = (h, off, bar)" by (cases st)
  have lp: "for_loop [0..N - 1] (init_point feature d d sf can) ?st0 = Inr (h, off, bar)"
    using lp0 st by simp
  have I: "?Inv N (h, off, bar)" using I0 st by simp
  define M where "M = HashTable_size h"
  have M0: "0 \<le> M" by (simp add: M_def HashTable_size_def)
  let ?LM = "(d + 1) * M"
  have LM: "0 \<le> ?LM" using d M0 by simp
  let ?n0 = "replicate (nat ?LM) (Neighbors 0 0)"
  let ?K = "\<lambda>nbs :: Neighbors list. int (length nbs) = ?LM \<and> list_all (neighbor_ok M) nbs"
  have K0: "?K ?n0"
  proof (cases "M = 0")
    case True
    then show ?thesis by simp
  next
    case False
    with M0 have "neighbor_ok M (Neighbors 0 0)" by (simp add: neighbor_ok_def)
    then show ?thesis using LM by (simp add: list_all_iff)
  qed
  have kl: "list_all (\<lambda>key. int (length key) = d) (keys h)" using I by simp
  have "\<exists>nbs. for_loop [0..d] (\<lambda>j. for_loop [0..M - 1] (find_neighbors h d M j)) ?n0 = Inr nbs
          \<and> ?K nbs"
  proof (rule for_loop_keep [where I = ?K, OF K0])
    fix j and nbs :: "Neighbors list" assume j: "0 \<le> j" "j \<le> d" and K: "?K nbs"
    show "\<exists>s'. for_loop [0..M - 1] (find_neighbors h d M j) nbs = Inr s' \<and> ?K s'"
    proof (rule for_loop_keep [where I = ?K, OF K])
      fix i and nb :: "Neighbors list" assume i: "0 \<le> i" "i \<le> M - 1" and K': "?K nb"
      from K' have a: "int (length nb) = ?LM" "list_all (neighbor_ok M) nb" by simp_all
      have iM: "i < M" using i by simp
      from find_neighbors_total [OF d kl M_def j i(1) iM a] a(1)
      show "\<exists>s'. find_neighbors h d M j i nb = Inr s' \<and> ?K s'" by auto
    qed
  qed
  then obtain nbs where nb: "for_loop [0..d] (\<lambda>j. for_loop [0..M - 1] (find_neighbors h d M j)) ?n0
      = Inr nbs" and K: "?K nbs" by blast
  let ?p = "\<lparr>offset_p = Some off, barycentric_p = Some bar, blur_neighbors_p = Some nbs,
             N_p = N, M_p = M, d_p = d\<rparr>"
  have ini: "init this feature d N = Inr ?p"
    using L LM lp nb
    by (simp add: init_def Let_def new_array_def sf(1) can(1) M_def [symmetric])
  have offs: "list_all (\<lambda>x. 0 \<le> x \<and> x < M) off"
  proof -
    have "0 \<le> off ! n \<and> off ! n < M" if "n < length off" for n
    proof -
      from I have "int (length off) = ?L"
        and all: "\<And>idx. 0 \<le> idx \<and> idx < N * (d + 1)
                   \<Longrightarrow> 0 \<le> off ! nat idx \<and> off ! nat idx < HashTable_size h" by simp_all
      with that have "0 \<le> int n \<and> int n < N * (d + 1)" by (simp add: mult.commute)
      from all [OF this] show ?thesis by (simp add: M_def)
    qed
    then show ?thesis by (simp add: list_all_length)
  qed
  have ok: "lattice_ok ?p"
    using d N M0 I K offs by (simp add: lattice_ok_def neighbor_ok_def [abs_def])
  have rows: "(\<Sum>r\<leftarrow>[0..d]. tab (barycentric_p ?p) (k * (d + 1) + r)) = 1
                 \<and> (\<forall>r. 0 \<le> r \<and> r \<le> d \<longrightarrow> 0 \<le> tab (barycentric_p ?p) (k * (d + 1) + r))"
    if "0 \<le> k \<and> k < N" for k
    using I that by (simp add: tab_def)
  show ?thesis
    using ini ok rows by (intro exI [of _ ?p]) simp
qed




section \<open>Filtering a single point\<close>

text \<open>
  Two runs of a loop, one on each of two states, keep a relation between the states.
\<close>

lemma for_loop_rel:
  assumes "R a s t"
    and "\<And>i s t. a \<le> i \<Longrightarrow> i \<le> b \<Longrightarrow> R i s t
           \<Longrightarrow> \<exists>s' t'. f i s = Inr s' \<and> g i t = Inr t' \<and> R (i + 1) s' t'"
    and "a \<le> b + 1"
  shows "\<exists>s' t'. for_loop [a..b] f s = Inr s' \<and> for_loop [a..b] g t = Inr t' \<and> R (b + 1) s' t'"
proof -
  have "\<And>c. a \<le> c + 1 \<Longrightarrow> c \<le> b \<Longrightarrow> nat (c + 1 - a) = n
          \<Longrightarrow> \<exists>s' t'. for_loop [a..c] f s = Inr s' \<and> for_loop [a..c] g t = Inr t' \<and> R (c + 1) s' t'"
    for n
  proof (induction n)
    case 0
    then have "c = a - 1" by simp
    with assms(1) show ?case by simp
  next
    case (Suc n)
    then have ac: "a \<le> c" by linarith
    from Suc.prems have "nat (c - 1 + 1 - a) = n" by linarith
    with Suc.IH [of "c - 1"] Suc.prems ac
    obtain s1 t1 where st: "for_loop [a..c - 1] f s = Inr s1" "for_loop [a..c - 1] g t = Inr t1"
      "R c s1 t1" by auto
    from assms(2) [OF ac Suc.prems(2) st(3)]
    obtain s2 t2 where "f c s1 = Inr s2" "g c t1 = Inr t2" "R (c + 1) s2 t2" by blast
    with st ac show ?case by (simp add: for_loop_snoc)
  qed
  from this [of b "nat (b + 1 - a)"] assms(3) show ?thesis by simp
qed

lemma slot_outside:
  fixes m b vs k :: int
  assumes "0 \<le> vs" "0 \<le> k" "k < vs" "m \<noteq> b"
  shows "\<not> (b * vs \<le> m * vs + k \<and> m * vs + k < b * vs + vs)"
proof (cases "m < b")
  case True
  then have "(m + 1) * vs \<le> b * vs" using assms(1) by (intro mult_right_mono) simp_all
  then have "m * vs + k < b * vs" using assms(3) by (simp add: algebra_simps)
  then show ?thesis by simp
next
  case False
  with assms(4) have "b + 1 \<le> m" by simp
  then have "(b + 1) * vs \<le> m * vs" using assms(1) by (intro mult_right_mono) simp_all
  then have "b * vs + vs \<le> m * vs + k" using assms(2) by (simp add: algebra_simps)
  then show ?thesis by simp
qed

lemma scaled_upd:
  assumes sc: "scaled M vs c A B" and vs: "0 \<le> vs" and b: "0 \<le> b" "b < M + 2"
    and g: "\<And>k. 0 \<le> k \<and> k < vs \<Longrightarrow>
              GA k (A ! nat (b * vs + k)) = c k * GB 0 (B ! nat (b * 1 + 0))"
  shows "scaled M vs c (upd_seg A (b * vs) vs GA) (upd_seg B (b * 1) 1 GB)"
  unfolding scaled_def
proof (intro conjI allI impI)
  from sc have lA: "int (length A) = (M + 2) * vs" and lB: "int (length B) = (M + 2) * 1"
    and rel: "\<And>m k. 0 \<le> m \<and> m < M + 2 \<and> 0 \<le> k \<and> k < vs
                \<Longrightarrow> A ! nat (m * vs + k) = c k * B ! nat (m * 1 + 0)"
    by (simp_all add: scaled_def)
  show "int (length (upd_seg A (b * vs) vs GA)) = (M + 2) * vs" using lA by simp
  show "int (length (upd_seg B (b * 1) 1 GB)) = (M + 2) * 1" using lB by simp
  fix m k assume mk: "0 \<le> m \<and> m < M + 2 \<and> 0 \<le> k \<and> k < vs"
  have ia: "0 \<le> m * vs + k" "m * vs + k < int (length A)"
    using slot_bounds [of m "M + 2" k vs] mk lA by simp_all
  have ib: "0 \<le> m * 1 + 0" "m * 1 + 0 < int (length B)" using mk lB by simp_all
  show "upd_seg A (b * vs) vs GA ! nat (m * vs + k)
          = c k * upd_seg B (b * 1) 1 GB ! nat (m * 1 + 0)"
  proof (cases "m = b")
    case True
    have "upd_seg A (b * vs) vs GA ! nat (b * vs + k) = GA k (A ! nat (b * vs + k))"
      using mk ia True vs b by (intro nth_upd_seg_inside) simp_all
    moreover have "upd_seg B (b * 1) 1 GB ! nat (b * 1 + 0) = GB 0 (B ! nat (b * 1 + 0))"
      using ib True b by (intro nth_upd_seg_inside) simp_all
    ultimately show ?thesis using g [of k] mk True by simp
  next
    case False
    have "upd_seg A (b * vs) vs GA ! nat (m * vs + k) = A ! nat (m * vs + k)"
    proof (rule nth_upd_seg_outside)
      show "nat (m * vs + k) < length A" using ia by linarith
      show "\<not> (b * vs \<le> int (nat (m * vs + k)) \<and> int (nat (m * vs + k)) < b * vs + vs)"
        using slot_outside [of vs k m b] mk vs False ia by simp
    qed
    moreover have "upd_seg B (b * 1) 1 GB ! nat (m * 1 + 0) = B ! nat (m * 1 + 0)"
    proof (rule nth_upd_seg_outside)
      show "nat (m * 1 + 0) < length B" using ib by linarith
      show "\<not> (b * 1 \<le> int (nat (m * 1 + 0)) \<and> int (nat (m * 1 + 0)) < b * 1 + 1)"
        using False mk by simp
    qed
    ultimately show ?thesis using rel [OF mk] by simp
  qed
qed

lemma splat_scaling:
  assumes ok: "lattice_ok p" and vs: "0 \<le> vs"
    and rng: "0 \<le> in_off" "0 \<le> in_sz" "in_off + in_sz \<le> N_p p"
    and inA: "in_sz * vs \<le> int (length inpA)" and inB: "in_sz * 1 \<le> int (length inpB)"
    and inp: "\<And>i k. 0 \<le> i \<and> i < in_sz \<and> 0 \<le> k \<and> k < vs
                \<Longrightarrow> inpA ! nat (i * vs + k) = c k * inpB ! nat (i * 1 + 0)"
    and sc: "scaled (M_p p) vs c A B"
  shows "\<exists>A' B'. splat p inpA vs in_off in_sz A = Inr A' \<and> splat p inpB 1 in_off in_sz B = Inr B'
           \<and> scaled (M_p p) vs c A' B'"
proof -
  let ?R = "\<lambda>(i::int) A B. scaled (M_p p) vs c A B"
  have "\<exists>A' B'. for_loop [0..in_sz - 1] (splat_point p inpA vs in_off) A = Inr A'
          \<and> for_loop [0..in_sz - 1] (splat_point p inpB 1 in_off) B = Inr B'
          \<and> ?R (in_sz - 1 + 1) A' B'"
  proof (rule for_loop_rel [where R = ?R])
    show "?R 0 A B" by (rule sc)
  next
    fix i s t assume i: "0 \<le> i" "i \<le> in_sz - 1" and R: "?R i s t"
    have r: "0 \<le> in_off + i" "in_off + i < N_p p" using rng i by simp_all
    have ia: "(i + 1) * vs \<le> int (length inpA)" using input_slot [OF vs _ inA, of i] i by simp
    have ib: "(i + 1) * 1 \<le> int (length inpB)" using inB i by simp
    have "\<exists>s' t'. for_loop [0..d_p p] (splat_corner p inpA vs in_off i) s = Inr s'
            \<and> for_loop [0..d_p p] (splat_corner p inpB 1 in_off i) t = Inr t'
            \<and> ?R (d_p p + 1) s' t'"
    proof (rule for_loop_rel [where R = ?R])
      show "?R 0 s t" by (rule R)
    next
      fix j s1 t1 assume j: "0 \<le> j" "j \<le> d_p p" and R1: "?R j s1 t1"
      let ?ov = "tab (offset_p p) ((in_off + i) * (d_p p + 1) + j)"
      let ?w = "tab (barycentric_p p) ((in_off + i) * (d_p p + 1) + j)"
      from R1 have l: "int (length s1) = (M_p p + 2) * vs" "int (length t1) = (M_p p + 2) * 1"
        by (simp_all add: scaled_def)
      note c = lattice_ok_corner [OF ok r j]
      have ea: "splat_corner p inpA vs in_off i j s1
                  = Inr (upd_seg s1 ((?ov + 1) * vs) vs (\<lambda>k v. v + ?w * inpA ! nat (i * vs + k)))"
        by (rule splat_corner_exact [OF ok vs r j i(1) ia l(1)])
      have eb: "splat_corner p inpB 1 in_off i j t1
                  = Inr (upd_seg t1 ((?ov + 1) * 1) 1 (\<lambda>k v. v + ?w * inpB ! nat (i * 1 + k)))"
        by (rule splat_corner_exact [OF ok _ r j i(1) ib l(2)]) simp
      have "scaled (M_p p) vs c
              (upd_seg s1 ((?ov + 1) * vs) vs (\<lambda>k v. v + ?w * inpA ! nat (i * vs + k)))
              (upd_seg t1 ((?ov + 1) * 1) 1 (\<lambda>k v. v + ?w * inpB ! nat (i * 1 + k)))"
      proof (rule scaled_upd [OF R1 vs])
        show "0 \<le> ?ov + 1" "?ov + 1 < M_p p + 2" using c by simp_all
      next
        fix k assume k: "0 \<le> k \<and> k < vs"
        have "s1 ! nat ((?ov + 1) * vs + k) = c k * t1 ! nat ((?ov + 1) * 1 + 0)"
          using R1 c k by (simp add: scaled_def)
        moreover have "inpA ! nat (i * vs + k) = c k * inpB ! nat (i * 1 + 0)"
          using inp [of i k] i k by simp
        ultimately show "s1 ! nat ((?ov + 1) * vs + k) + ?w * inpA ! nat (i * vs + k)
            = c k * (t1 ! nat ((?ov + 1) * 1 + 0) + ?w * inpB ! nat (i * 1 + 0))"
          by (simp add: algebra_simps)
      qed
      with ea eb show "\<exists>s' t'. splat_corner p inpA vs in_off i j s1 = Inr s'
          \<and> splat_corner p inpB 1 in_off i j t1 = Inr t' \<and> ?R (j + 1) s' t'" by blast
    next
      show "0 \<le> d_p p + 1" using ok by (simp add: lattice_ok_def)
    qed
    then show "\<exists>s' t'. splat_point p inpA vs in_off i s = Inr s'
        \<and> splat_point p inpB 1 in_off i t = Inr t' \<and> ?R (i + 1) s' t'"
      by (simp add: splat_point_def)
  next
    show "0 \<le> in_sz - 1 + 1" using rng by simp
  qed
  then show ?thesis by (simp add: splat_def)
qed


lemma blur_axis_scaling:
  assumes ok: "lattice_ok p" and vs: "0 \<le> vs" and j: "0 \<le> j" "j \<le> d_p p"
    and sv: "scaled (M_p p) vs c vA vB" and sn: "scaled (M_p p) vs c nA nB"
  shows "\<exists>nA' nB'. blur_axis p vs j (vA, nA) = Inr (nA', vA)
           \<and> blur_axis p 1 j (vB, nB) = Inr (nB', vB) \<and> scaled (M_p p) vs c nA' nB'"
proof -
  from sv have lv: "int (length vA) = (M_p p + 2) * vs" "int (length vB) = (M_p p + 2) * 1"
    and rv: "\<And>m k. 0 \<le> m \<and> m < M_p p + 2 \<and> 0 \<le> k \<and> k < vs
                \<Longrightarrow> vA ! nat (m * vs + k) = c k * vB ! nat (m * 1 + 0)"
    by (simp_all add: scaled_def)
  from sn have ln: "int (length nA) = (M_p p + 2) * vs" "int (length nB) = (M_p p + 2) * 1"
    and rn: "\<And>m k. 0 \<le> m \<and> m < M_p p + 2 \<and> 0 \<le> k \<and> k < vs
                \<Longrightarrow> nA ! nat (m * vs + k) = c k * nB ! nat (m * 1 + 0)"
    by (simp_all add: scaled_def)
  have M: "0 \<le> M_p p" using ok by (simp add: lattice_ok_def)
  from blur_axis_total [OF ok vs j lv(1) ln(1)]
  obtain nA' where a: "blur_axis p vs j (vA, nA) = Inr (nA', vA)" "length nA' = length nA"
    "\<And>i k. 0 \<le> i \<and> i < M_p p \<and> 0 \<le> k \<and> k < vs
        \<Longrightarrow> nA' ! nat ((i + 1) * vs + k) = blur_val p vs j vA i k"
    "\<And>m. m < length nA \<and> (int m < vs \<or> (M_p p + 1) * vs \<le> int m) \<Longrightarrow> nA' ! m = nA ! m"
    by blast
  have one: "(0::int) \<le> 1" by simp
  from blur_axis_total [OF ok one j lv(2) ln(2)]
  obtain nB' where b: "blur_axis p 1 j (vB, nB) = Inr (nB', vB)" "length nB' = length nB"
    "\<And>i k. 0 \<le> i \<and> i < M_p p \<and> 0 \<le> k \<and> k < 1
        \<Longrightarrow> nB' ! nat ((i + 1) * 1 + k) = blur_val p 1 j vB i k"
    "\<And>m. m < length nB \<and> (int m < 1 \<or> (M_p p + 1) * 1 \<le> int m) \<Longrightarrow> nB' ! m = nB ! m"
    by blast
  have "scaled (M_p p) vs c nA' nB'"
    unfolding scaled_def
  proof (intro conjI allI impI)
    show "int (length nA') = (M_p p + 2) * vs" using a(2) ln(1) by simp
    show "int (length nB') = (M_p p + 2) * 1" using b(2) ln(2) by simp
    fix m k assume mk: "0 \<le> m \<and> m < M_p p + 2 \<and> 0 \<le> k \<and> k < vs"
    have ia: "0 \<le> m * vs + k" "m * vs + k < (M_p p + 2) * vs"
      using slot_bounds [of m "M_p p + 2" k vs] mk by simp_all
    have lt: "nat (m * vs + k) < length nA" using ia ln(1) by linarith
    have e: "m * 1 + 0 = m" by simp
    have l2: "int (length nB) = M_p p + 2" using ln(2) by simp
    have ltB: "nat (m * 1 + 0) < length nB" unfolding e using mk l2 by linarith
    consider (zero) "m = 0" | (last) "m = M_p p + 1" | (mid) "0 \<le> m - 1" "m - 1 < M_p p"
      using mk by linarith
    then show "nA' ! nat (m * vs + k) = c k * nB' ! nat (m * 1 + 0)"
    proof cases
      case zero
      have "int (nat (m * vs + k)) < vs" using zero mk by simp
      then have "nA' ! nat (m * vs + k) = nA ! nat (m * vs + k)"
        using lt by (intro a(4)) simp
      moreover have "nB' ! nat (m * 1 + 0) = nB ! nat (m * 1 + 0)"
        using ltB mk zero by (intro b(4)) simp
      ultimately show ?thesis using rn [OF mk] by simp
    next
      case last
      have "(M_p p + 1) * vs \<le> m * vs + k" using last mk by simp
      then have "(M_p p + 1) * vs \<le> int (nat (m * vs + k))" using ia by simp
      then have "nA' ! nat (m * vs + k) = nA ! nat (m * vs + k)"
        using lt by (intro a(4)) simp
      moreover have "nB' ! nat (m * 1 + 0) = nB ! nat (m * 1 + 0)"
        using ltB mk last M by (intro b(4)) simp
      ultimately show ?thesis using rn [OF mk] by simp
    next
      case mid
      let ?nb = "tab (blur_neighbors_p p) (j * M_p p + (m - 1))"
      note nb = lattice_ok_neighbors [OF ok j mid]
      have ea: "nA' ! nat (m * vs + k) = blur_val p vs j vA (m - 1) k"
        using a(3) [of "m - 1" k] mid mk by simp
      have eb: "nB' ! nat (m * 1 + 0) = blur_val p 1 j vB (m - 1) 0"
        using b(3) [of "m - 1" 0] mid by simp
      have r0: "vA ! nat ((m - 1 + 1) * vs + k) = c k * vB ! nat ((m - 1 + 1) * 1 + 0)"
        using mk by (intro rv) simp
      have r1: "vA ! nat ((n1 ?nb + 1) * vs + k) = c k * vB ! nat ((n1 ?nb + 1) * 1 + 0)"
        using mk nb(2,3) by (intro rv) simp
      have r2: "vA ! nat ((n2 ?nb + 1) * vs + k) = c k * vB ! nat ((n2 ?nb + 1) * 1 + 0)"
        using mk nb(4,5) by (intro rv) simp
      have "blur_val p vs j vA (m - 1) k = c k * blur_val p 1 j vB (m - 1) 0"
        unfolding blur_val_def r0 r1 r2 by (simp add: algebra_simps)
      with ea eb show ?thesis by simp
    qed
  qed
  with a(1) b(1) show ?thesis by blast
qed

lemma scaled_zero:
  assumes "0 \<le> M" "0 \<le> vs"
  shows "scaled M vs c (replicate (nat ((M + 2) * vs)) 0) (replicate (nat ((M + 2) * 1)) 0)"
  unfolding scaled_def
proof (intro conjI allI impI)
  show "int (length (replicate (nat ((M + 2) * vs)) (0::real))) = (M + 2) * vs"
    using assms by simp
  show "int (length (replicate (nat ((M + 2) * 1)) (0::real))) = (M + 2) * 1"
    using assms by simp
  fix m k assume mk: "0 \<le> m \<and> m < M + 2 \<and> 0 \<le> k \<and> k < vs"
  have "0 \<le> m * vs + k" "m * vs + k < (M + 2) * vs"
    using slot_bounds [of m "M + 2" k vs] mk by simp_all
  then have "nat (m * vs + k) < nat ((M + 2) * vs)" by linarith
  moreover have "nat (m * 1 + 0) < nat ((M + 2) * 1)" using mk by simp
  ultimately show "replicate (nat ((M + 2) * vs)) (0::real) ! nat (m * vs + k)
      = c k * replicate (nat ((M + 2) * 1)) (0::real) ! nat (m * 1 + 0)"
    by (simp only: nth_replicate mult_zero_right)
qed

lemma filtered_scaling:
  assumes ok: "lattice_ok p" and vs: "0 \<le> vs"
    and rng: "0 \<le> in_off" "0 \<le> range_size p in_off in_sz"
      "in_off + range_size p in_off in_sz \<le> N_p p"
    and inA: "range_size p in_off in_sz * vs \<le> int (length inpA)"
    and inB: "range_size p in_off in_sz * 1 \<le> int (length inpB)"
    and inp: "\<And>i k. 0 \<le> i \<and> i < range_size p in_off in_sz \<and> 0 \<le> k \<and> k < vs
                \<Longrightarrow> inpA ! nat (i * vs + k) = c k * inpB ! nat (i * 1 + 0)"
  shows "\<exists>vA nA vB nB. filtered p inpA vs in_off in_sz (d_p p + 1) = Inr (vA, nA)
           \<and> filtered p inpB 1 in_off in_sz (d_p p + 1) = Inr (vB, nB)
           \<and> scaled (M_p p) vs c vA vB"
proof -
  let ?zA = "replicate (nat ((M_p p + 2) * vs)) (0::real)"
  let ?zB = "replicate (nat ((M_p p + 2) * 1)) (0::real)"
  have M: "0 \<le> M_p p" and d: "0 \<le> d_p p" using ok by (simp_all add: lattice_ok_def)
  have "0 \<le> (M_p p + 2) * vs" using M vs by (intro mult_nonneg_nonneg) simp_all
  then have newA: "new_array ((M_p p + 2) * vs) (0::real) = Inr ?zA"
    by (simp add: new_array_def)
  have newB: "new_array ((M_p p + 2) * 1) (0::real) = Inr ?zB"
    using M by (simp add: new_array_def)
  have z: "scaled (M_p p) vs c ?zA ?zB" by (rule scaled_zero [OF M vs])
  from splat_scaling [OF ok vs rng inA inB inp z]
  obtain sA sB where s: "splat p inpA vs in_off (range_size p in_off in_sz) ?zA = Inr sA"
    "splat p inpB 1 in_off (range_size p in_off in_sz) ?zB = Inr sB"
    "scaled (M_p p) vs c sA sB" by blast
  let ?R = "\<lambda>(j::int) (s :: real list \<times> real list) (t :: real list \<times> real list).
      scaled (M_p p) vs c (fst s) (fst t) \<and> scaled (M_p p) vs c (snd s) (snd t)"
  have "\<exists>s' t'. for_loop [0..d_p p + 1 - 1] (blur_axis p vs) (sA, ?zA) = Inr s'
          \<and> for_loop [0..d_p p + 1 - 1] (blur_axis p 1) (sB, ?zB) = Inr t'
          \<and> ?R (d_p p + 1 - 1 + 1) s' t'"
  proof (rule for_loop_rel [where R = ?R])
    show "?R 0 (sA, ?zA) (sB, ?zB)" using s(3) z by simp
  next
    fix j s t assume j: "0 \<le> j" "j \<le> d_p p + 1 - 1" and R: "?R j s t"
    obtain vA nA where st: "s = (vA, nA)" by (cases s)
    obtain vB nB where tt: "t = (vB, nB)" by (cases t)
    from R st tt have sv: "scaled (M_p p) vs c vA vB" and sn: "scaled (M_p p) vs c nA nB"
      by simp_all
    have jd: "j \<le> d_p p" using j by simp
    from blur_axis_scaling [OF ok vs j(1) jd sv sn]
    obtain nA' nB' where "blur_axis p vs j (vA, nA) = Inr (nA', vA)"
      "blur_axis p 1 j (vB, nB) = Inr (nB', vB)" "scaled (M_p p) vs c nA' nB'" by blast
    with sv st tt show "\<exists>s' t'. blur_axis p vs j s = Inr s' \<and> blur_axis p 1 j t = Inr t'
        \<and> ?R (j + 1) s' t'" by simp
  next
    show "0 \<le> d_p p + 1 - 1 + 1" using d by simp
  qed
  then obtain s' t' where e: "for_loop [0..d_p p + 1 - 1] (blur_axis p vs) (sA, ?zA) = Inr s'"
    "for_loop [0..d_p p + 1 - 1] (blur_axis p 1) (sB, ?zB) = Inr t'"
    "scaled (M_p p) vs c (fst s') (fst t')" by blast
  have "filtered p inpA vs in_off in_sz (d_p p + 1) = Inr (fst s', snd s')"
    unfolding filtered_def newA bnd_Inr s(1) e(1) by simp
  moreover have "filtered p inpB 1 in_off in_sz (d_p p + 1) = Inr (fst t', snd t')"
    unfolding filtered_def newB bnd_Inr s(2) e(2) by simp
  ultimately show ?thesis using e(3) by blast
qed

lemma slice_val_scaling:
  assumes ok: "lattice_ok p" and sc: "scaled (M_p p) vs c vA vB"
    and r: "0 \<le> r" "r < N_p p" and k: "0 \<le> k" "k < vs"
  shows "slice_val p vs alpha vA r k = c k * slice_val p 1 alpha vB r 0"
proof -
  have "set js \<subseteq> {0..d_p p} \<Longrightarrow>
          foldl (slice_term p vs alpha vA r k) (c k * acc) js
            = c k * foldl (slice_term p 1 alpha vB r 0) acc js" for js acc
  proof (induction js arbitrary: acc)
    case Nil
    show ?case by simp
  next
    case (Cons j js)
    then have j: "0 \<le> j" "j \<le> d_p p" by simp_all
    let ?ov = "tab (offset_p p) (r * (d_p p + 1) + j)"
    note cr = lattice_ok_corner [OF ok r j]
    have "vA ! nat ((?ov + 1) * vs + k) = c k * vB ! nat ((?ov + 1) * 1 + 0)"
      using sc cr(3,4) k by (simp add: scaled_def)
    then have "slice_term p vs alpha vA r k (c k * acc) j
                 = c k * slice_term p 1 alpha vB r 0 acc j"
      by (simp add: slice_term_def algebra_simps)
    with Cons.IH [of "slice_term p 1 alpha vB r 0 acc j"] Cons.prems show ?case by simp
  qed
  from this [of "[0..d_p p]" 0] show ?thesis by (simp add: slice_val_alt)
qed


lemma compute_scaling:
  assumes ok: "lattice_ok p" and vs: "0 \<le> vs"
    and rng: "0 \<le> in_off" "0 \<le> range_size p in_off in_sz"
      "in_off + range_size p in_off in_sz \<le> N_p p"
    and inA: "range_size p in_off in_sz * vs \<le> int (length inpA)"
    and inB: "range_size p in_off in_sz * 1 \<le> int (length inpB)"
    and inp: "\<And>i k. 0 \<le> i \<and> i < range_size p in_off in_sz \<and> 0 \<le> k \<and> k < vs
                \<Longrightarrow> inpA ! nat (i * vs + k) = c k * inpB ! nat (i * 1 + 0)"
    and outr: "0 \<le> out_off" "0 \<le> range_size p out_off out_sz"
      "out_off + range_size p out_off out_sz \<le> N_p p"
    and outA: "range_size p out_off out_sz * vs \<le> int (length outA)"
    and outB: "range_size p out_off out_sz * 1 \<le> int (length outB)"
  shows "\<exists>rA rB. compute p outA inpA vs in_off out_off in_sz out_sz = Inr rA
           \<and> compute p outB inpB 1 in_off out_off in_sz out_sz = Inr rB
           \<and> length rA = length outA \<and> length rB = length outB
           \<and> (\<forall>i k. 0 \<le> i \<and> i < range_size p out_off out_sz \<and> 0 \<le> k \<and> k < vs
                 \<longrightarrow> rA ! nat (i * vs + k) = c k * rB ! nat (i * 1 + 0))"
proof -
  from filtered_scaling [OF ok vs rng inA inB inp]
  obtain vA nA vB nB where f: "filtered p inpA vs in_off in_sz (d_p p + 1) = Inr (vA, nA)"
    "filtered p inpB 1 in_off in_sz (d_p p + 1) = Inr (vB, nB)"
    "scaled (M_p p) vs c vA vB" by blast
  from compute_total [OF ok vs rng inA outr outA] f(1)
  obtain rA where a: "compute p outA inpA vs in_off out_off in_sz out_sz = Inr rA"
    "length rA = length outA"
    "\<And>i k. 0 \<le> i \<and> i < range_size p out_off out_sz \<and> 0 \<le> k \<and> k < vs \<Longrightarrow>
       rA ! nat (i * vs + k) = slice_val p vs (alpha_of (d_p p)) vA (out_off + i) k"
    by auto
  have one: "(0::int) \<le> 1" by simp
  from compute_total [OF ok one rng inB outr outB] f(2)
  obtain rB where b: "compute p outB inpB 1 in_off out_off in_sz out_sz = Inr rB"
    "length rB = length outB"
    "\<And>i k. 0 \<le> i \<and> i < range_size p out_off out_sz \<and> 0 \<le> k \<and> k < 1 \<Longrightarrow>
       rB ! nat (i * 1 + k) = slice_val p 1 (alpha_of (d_p p)) vB (out_off + i) k"
    by auto
  have "rA ! nat (i * vs + k) = c k * rB ! nat (i * 1 + 0)"
    if h: "0 \<le> i \<and> i < range_size p out_off out_sz \<and> 0 \<le> k \<and> k < vs" for i k
  proof -
    have r: "0 \<le> out_off + i" "out_off + i < N_p p" using h outr by simp_all
    have "slice_val p vs (alpha_of (d_p p)) vA (out_off + i) k
            = c k * slice_val p 1 (alpha_of (d_p p)) vB (out_off + i) 0"
      using h by (intro slice_val_scaling [OF ok f(3) r]) simp_all
    moreover have "rB ! nat (i * 1 + 0) = slice_val p 1 (alpha_of (d_p p)) vB (out_off + i) 0"
      using h by (intro b(3)) simp
    ultimately show ?thesis using a(3) [OF h] by simp
  qed
  with a(1,2) b(1,2) show ?thesis by blast
qed

text \<open>
  The lattice built from the single feature point 0.0 with \<open>d = 1\<close>, filtering the value
  vector \<open>[1]\<close>: the output is \<open>[5/6]\<close>, not \<open>[1]\<close>.  The point is splat onto its vertex 0
  with weight 1; the two axis passes leave \<open>5/4\<close> there; \<open>alpha\<close> is \<open>2/3\<close>.
\<close>

theorem single_point_identity_counterexample:
  "init Permutohedral_default [0] 1 1 = Inr lattice_one
     \<and> compute lattice_one [0] [1] 1 0 0 (- 1) (- 1) = Inr [5 / 6]
     \<and> compute lattice_one [0] [1] 1 0 0 (- 1) (- 1) \<noteq> Inr [1]"
proof -
  have "compute lattice_one [0] [1] 1 0 0 (- 1) (- 1) = Inr [5 / 6]"
    by (simp add: filter_evals compute_def lattice_one_def)
  then show ?thesis by (simp add: init_lattice_one)
qed

text \<open>
  C4.  For a lattice built by \<^verbatim>\<open>init\<close> from a single feature point (\<open>N = 1\<close>) of
  \<open>d \<ge> 1\<close> reals, \<^verbatim>\<open>compute\<close> with the default ranges on a value vector of any
  \<open>value_size\<close> returns, and the output is the value vector multiplied, channel by
  channel, by one number \<open>g\<close>: the output of the same lattice on the value vector \<open>[1]\<close>
  with \<open>value_size = 1\<close>.  The number depends on the feature point and on \<open>d\<close> only, and
  need not be 1.
\<close>

theorem single_point_gain:
  assumes "1 \<le> d" and "d \<le> int (length feature)"
    and "0 \<le> value_size"
    and "value_size \<le> int (length inp)" and "value_size \<le> int (length out)"
  shows "\<exists>p g r. init this feature d 1 = Inr p
           \<and> compute p [0] [1] 1 0 0 (- 1) (- 1) = Inr [g]
           \<and> compute p out inp value_size 0 0 (- 1) (- 1) = Inr r
           \<and> length r = length out
           \<and> (\<forall>k. 0 \<le> k \<and> k < value_size \<longrightarrow> r ! nat k = inp ! nat k * g)"
proof -
  have d: "0 \<le> d" using assms(1) by simp
  have N: "(0::int) \<le> 1" by simp
  have feat: "1 * d \<le> int (length feature)" using assms(2) by simp
  from init_total [OF d N feat, of this]
  obtain p where p: "init this feature d 1 = Inr p" "lattice_ok p" "N_p p = 1" "d_p p = d"
    by blast
  have sz: "range_size p 0 (- 1) = 1" using p(3) by (simp add: range_size_def)
  have "\<exists>rA rB. compute p out inp value_size 0 0 (- 1) (- 1) = Inr rA
           \<and> compute p [0] [1] 1 0 0 (- 1) (- 1) = Inr rB
           \<and> length rA = length out \<and> length rB = length [0::real]
           \<and> (\<forall>i k. 0 \<le> i \<and> i < range_size p 0 (- 1) \<and> 0 \<le> k \<and> k < value_size
                 \<longrightarrow> rA ! nat (i * value_size + k) = inp ! nat k * rB ! nat (i * 1 + 0))"
  proof (rule compute_scaling [OF p(2) assms(3)])
    show "(0::int) \<le> 0" by simp
    show "0 \<le> range_size p 0 (- 1)" by (simp add: sz)
    show "0 + range_size p 0 (- 1) \<le> N_p p" by (simp add: sz p(3))
    show "range_size p 0 (- 1) * value_size \<le> int (length inp)" using assms(4) by (simp add: sz)
    show "range_size p 0 (- 1) * 1 \<le> int (length [1::real])" by (simp add: sz)
    show "range_size p 0 (- 1) * value_size \<le> int (length out)" using assms(5) by (simp add: sz)
    show "range_size p 0 (- 1) * 1 \<le> int (length [0::real])" by (simp add: sz)
    show "inp ! nat (i * value_size + k) = inp ! nat k * [1] ! nat (i * 1 + 0)"
      if "0 \<le> i \<and> i < range_size p 0 (- 1) \<and> 0 \<le> k \<and> k < value_size" for i k
    proof -
      from that have "i = 0" by (simp add: sz)
      then show ?thesis by simp
    qed
  qed (simp_all add: sz p(3))
  then obtain rA rB where c: "compute p out inp value_size 0 0 (- 1) (- 1) = Inr rA"
    "compute p [0] [1] 1 0 0 (- 1) (- 1) = Inr rB"
    "length rA = length out" "length rB = length [0::real]"
    "\<And>i k. 0 \<le> i \<and> i < range_size p 0 (- 1) \<and> 0 \<le> k \<and> k < value_size
        \<Longrightarrow> rA ! nat (i * value_size + k) = inp ! nat k * rB ! nat (i * 1 + 0)"
    by blast
  from c(4) have rB: "rB = [rB ! 0]" by (cases rB) simp_all
  have "rA ! nat k = inp ! nat k * rB ! 0" if "0 \<le> k \<and> k < value_size" for k
    using c(5) [of 0 k] that by (simp add: sz)
  moreover have "compute p [0] [1] 1 0 0 (- 1) (- 1) = Inr [rB ! 0]" using c(2) rB by simp
  ultimately show ?thesis using p(1) c(1,3) by blast
qed

theorem single_point_gain_witness:
  "(1::int) \<le> 1 \<and> (1::int) \<le> int (length [0::real]) \<and> (0::int) \<le> 2
     \<and> (2::int) \<le> int (length [2::real, 3]) \<and> (2::int) \<le> int (length [0::real, 0])
     \<and> init Permutohedral_default [0] 1 1 = Inr lattice_one
     \<and> compute lattice_one [0] [1] 1 0 0 (- 1) (- 1) = Inr [5 / 6]
     \<and> compute lattice_one [0, 0] [2, 3] 2 0 0 (- 1) (- 1) = Inr [2 * (5 / 6), 3 * (5 / 6)]"
proof -
  from single_point_gain [of 1 "[0]" 2 "[2, 3]" "[0, 0]" Permutohedral_default]
  obtain p g r where h: "init Permutohedral_default [0] 1 1 = Inr p"
    "compute p [0] [1] 1 0 0 (- 1) (- 1) = Inr [g]"
    "compute p [0, 0] [2, 3] 2 0 0 (- 1) (- 1) = Inr r"
    "length r = length [0::real, 0]"
    "\<forall>k. 0 \<le> k \<and> k < 2 \<longrightarrow> r ! nat k = [2, 3] ! nat k * g"
    by auto
  from h(1) have p: "p = lattice_one" by (simp add: init_lattice_one)
  have "compute lattice_one [0] [1] 1 0 0 (- 1) (- 1) = Inr [5 / 6]"
    by (simp add: filter_evals compute_def lattice_one_def)
  with h(2) p have g: "g = 5 / 6" by simp
  have "r ! nat 0 = [2, 3] ! nat 0 * g" by (intro h(5) [rule_format]) simp
  moreover have "r ! nat 1 = [2, 3] ! nat 1 * g" by (intro h(5) [rule_format]) simp
  ultimately have e: "r ! 0 = 2 * g" "r ! 1 = 3 * g" by simp_all
  from h(4) obtain a b where "r = [a, b]"
    by (cases r; cases "tl r") auto
  with e have "r = [2 * g, 3 * g]" by simp
  with h p g show ?thesis by (simp add: init_lattice_one)
qed

section \<open>Filtering with an unbuilt lattice\<close>

text \<open>
  C10.  \<^verbatim>\<open>compute\<close> on a default-constructed object with the default ranges
  (\<open>in_offset = out_offset = 0\<close>, \<open>in_size = out_size = -1\<close>) and a non-negative
  \<open>value_size\<close> is defined and leaves the output array as it was: both range sizes
  resolve to 0, the index ranges of the splat loop, of the vertex loop of the blur and of
  the slice loop are empty, and the call returns \<open>out\<close> unchanged.
\<close>

theorem compute_unbuilt_noop:
  assumes "0 \<le> value_size"
  shows "range_size Permutohedral_default 0 (- 1) = 0
       \<and> [0..range_size Permutohedral_default 0 (- 1) - 1] = []
       \<and> [0..M_p Permutohedral_default - 1] = []
       \<and> compute Permutohedral_default out inp value_size 0 0 (- 1) (- 1) = Inr out"
  using assms
  by (simp add: compute_def range_size_def Permutohedral_default_def new_array_def splat_def
      blur_def blur_axis_def slice_def)

theorem compute_unbuilt_noop_witness:
  "(0::int) \<le> 3
     \<and> compute Permutohedral_default [7, 8, 9] [1, 2, 3] 3 0 0 (- 1) (- 1) = Inr [7, 8, 9]"
  using compute_unbuilt_noop [of 3 "[7, 8, 9]" "[1, 2, 3]"] by simp

end
